theory Spec2Isabelle
  imports Main "HOL-Library.Word"
begin

section \<open>Argument vectors: the tokenizer of \<^verbatim>\<open>src/client/argv.c\<close>\<close>

text \<open>
  A C string is modelled by the list of the characters at and after the pointer. The
  terminating NUL is the end of the list; a NUL character inside the list terminates the
  string as well, exactly as the C code would see it, so every list is a valid input.
\<close>

definition EOS :: char where
  "EOS = CHR 0x00"

text \<open>\<^verbatim>\<open>*input\<close>: the character under the pointer.\<close>

fun peek :: "string \<Rightarrow> char" where
  "peek [] = EOS"
| "peek (c # cs) = c"

text \<open>\<^verbatim>\<open>strlen\<close>: the number of characters before the terminator.\<close>

fun strlen :: "string \<Rightarrow> nat" where
  "strlen [] = 0"
| "strlen (c # cs) = (if c = EOS then 0 else Suc (strlen cs))"

text \<open>
  \<^verbatim>\<open>isspace\<close> of \<^verbatim>\<open>ctype.h\<close> is not part of the repository. It is modelled
  in the C locale: space, horizontal tab, newline, vertical tab, form feed, carriage return.
\<close>

definition isspace :: "char \<Rightarrow> bool" where
  "isspace c \<longleftrightarrow>
     c = CHR 0x20 \<or> c = CHR 0x09 \<or> c = CHR 0x0A \<or> c = CHR 0x0B \<or> c = CHR 0x0C \<or> c = CHR 0x0D"

definition squote_char :: char where
  "squote_char = CHR 0x27"

definition dquote_char :: char where
  "dquote_char = CHR 0x22"

definition backslash_char :: char where
  "backslash_char = CHR 0x5C"

definition INITIAL_MAXARGC :: nat where
  "INITIAL_MAXARGC = 8"

text \<open>\<^verbatim>\<open>consume_whitespace\<close>: advance the pointer over whitespace.\<close>

fun consume_whitespace :: "string \<Rightarrow> string" where
  "consume_whitespace [] = []"
| "consume_whitespace (c # cs) = (if isspace c then consume_whitespace cs else c # cs)"

text \<open>\<^verbatim>\<open>only_whitespace\<close>: the string holds nothing but whitespace.\<close>

fun only_whitespace :: "string \<Rightarrow> bool" where
  "only_whitespace [] = True"
| "only_whitespace (c # cs) = (if c \<noteq> EOS \<and> isspace c then only_whitespace cs else c = EOS)"

text \<open>The three flags of \<^verbatim>\<open>buildargv\<close>; they live across the arguments of one call.\<close>

record quoting =
  squote :: bool
  dquote :: bool
  bsquote :: bool

definition no_quoting :: quoting where
  "no_quoting = \<lparr>squote = False, dquote = False, bsquote = False\<rparr>"

text \<open>
  The inner \<^verbatim>\<open>while (*input != EOS)\<close> loop of \<^verbatim>\<open>buildargv\<close>: scan one argument into
  the working buffer. The third parameter is the buffer filled so far (\<^verbatim>\<open>copybuf\<close> up to
  \<^verbatim>\<open>arg\<close>); the result is the flags, the input pointer and the buffer when the loop ends.
\<close>

fun scan_arg :: "quoting \<Rightarrow> string \<Rightarrow> string \<Rightarrow> quoting \<times> string \<times> string" where
  "scan_arg q [] arg = (q, [], arg)"
| "scan_arg q (c # cs) arg =
     (if c = EOS then (q, c # cs, arg)
      else if isspace c \<and> \<not> squote q \<and> \<not> dquote q \<and> \<not> bsquote q then (q, c # cs, arg)
      else if bsquote q then scan_arg (q\<lparr>bsquote := False\<rparr>) cs (arg @ [c])
      else if c = backslash_char then scan_arg (q\<lparr>bsquote := True\<rparr>) cs arg
      else if squote q then
        (if c = squote_char then scan_arg (q\<lparr>squote := False\<rparr>) cs arg
         else scan_arg q cs (arg @ [c]))
      else if dquote q then
        (if c = dquote_char then scan_arg (q\<lparr>dquote := False\<rparr>) cs arg
         else scan_arg q cs (arg @ [c]))
      else
        (if c = squote_char then scan_arg (q\<lparr>squote := True\<rparr>) cs arg
         else if c = dquote_char then scan_arg (q\<lparr>dquote := True\<rparr>) cs arg
         else scan_arg q cs (arg @ [c])))"

lemma length_consume_whitespace: "length (consume_whitespace s) \<le> length s"
  by (induction s) auto

lemma scan_arg_rest_length: "length (fst (snd (scan_arg q s arg))) \<le> length s"
  by (induction q s arg rule: scan_arg.induct) (auto simp: le_SucI)

lemma isspace_EOS: "\<not> isspace EOS"
  by (simp add: isspace_def EOS_def)

lemma consume_whitespace_head: "consume_whitespace s = c # cs \<Longrightarrow> \<not> isspace c"
  by (induction s) (auto split: if_splits)

lemma scan_arg_progress:
  assumes "c \<noteq> EOS" and "\<not> isspace c"
  shows "length (fst (snd (scan_arg q (c # cs) arg))) \<le> length cs"
  using assms scan_arg_rest_length [of _ cs] by simp

lemma buildargv_loop_decreases:
  assumes "peek (consume_whitespace (fst (snd (scan_arg q (consume_whitespace input) arg)))) \<noteq> EOS"
  shows "length (consume_whitespace (fst (snd (scan_arg q (consume_whitespace input) arg)))) < length input"
proof (cases "consume_whitespace input")
  case Nil
  with assms show ?thesis by simp
next
  case (Cons c cs)
  then have nsp: "\<not> isspace c" by (rule consume_whitespace_head)
  show ?thesis
  proof (cases "c = EOS")
    case True
    with assms Cons nsp show ?thesis by simp
  next
    case False
    have "length (consume_whitespace (fst (snd (scan_arg q (c # cs) arg))))
            \<le> length (fst (snd (scan_arg q (c # cs) arg)))"
      by (rule length_consume_whitespace)
    also have "\<dots> \<le> length cs"
      using False nsp by (rule scan_arg_progress)
    also have "\<dots> < length (consume_whitespace input)"
      using Cons by simp
    also have "\<dots> \<le> length input"
      by (rule length_consume_whitespace)
    finally show ?thesis using Cons by simp
  qed
qed

lemma buildargv_loop_decreases_tuple:
  assumes "(q1, y) = scan_arg q (consume_whitespace input) arg" and "(input2, a) = y"
    and "peek (consume_whitespace input2) \<noteq> EOS"
  shows "length (consume_whitespace input2) < length input"
proof -
  have "input2 = fst (snd (scan_arg q (consume_whitespace input) arg))"
    using assms(1,2) by (metis fst_conv snd_conv)
  with assms(3) show ?thesis
    using buildargv_loop_decreases [of q input arg] by simp
qed

text \<open>
  The \<^verbatim>\<open>do { ... } while (*input != EOS)\<close> loop of \<^verbatim>\<open>buildargv\<close>. \<open>argv\<close> holds the
  arguments stored so far (\<open>argc\<close> is its length, and \<^verbatim>\<open>argv == NULL\<close> holds exactly before
  the first pass, when it is empty); \<open>maxargc\<close> is the capacity of the pointer array.
\<close>

function buildargv_loop :: "quoting \<Rightarrow> nat \<Rightarrow> string list \<Rightarrow> string \<Rightarrow> string list" where
  "buildargv_loop q maxargc argv input =
     (let input1 = consume_whitespace input;
          maxargc1 =
            (if maxargc = 0 \<or> length argv \<ge> maxargc - 1
             then (if argv = [] then INITIAL_MAXARGC else maxargc * 2)
             else maxargc)
      in case scan_arg q input1 [] of
           (q1, input2, arg) \<Rightarrow>
             (let argv1 = argv @ [arg];
                  input3 = consume_whitespace input2
              in if peek input3 \<noteq> EOS then buildargv_loop q1 maxargc1 argv1 input3
                 else argv1))"
  by pat_completeness auto

termination buildargv_loop
proof (relation "measure (\<lambda>(q, maxargc, argv, input). length input)", goal_cases)
  case 1
  show ?case by simp
next
  case 2
  then show ?case
    by (simp add: buildargv_loop_decreases_tuple)
qed

declare buildargv_loop.simps [simp del]

text \<open>
  \<^verbatim>\<open>buildargv\<close>: a \<^verbatim>\<open>NULL\<close> input gives \<^verbatim>\<open>NULL\<close>; any other input gives the vector of
  its arguments (the \<^verbatim>\<open>NULL\<close> that ends the vector is the end of the list).
\<close>

definition buildargv :: "string option \<Rightarrow> string list option" where
  "buildargv input =
     (case input of
        None \<Rightarrow> None
      | Some s \<Rightarrow> Some (buildargv_loop no_quoting 0 [] s))"

section \<open>Response files: \<^verbatim>\<open>expandargv\<close>\<close>

text \<open>
  What \<^verbatim>\<open>stat\<close>, \<^verbatim>\<open>fopen\<close> and the reads find under a path. The file system is not part of
  the repository; \<^verbatim>\<open>expandargv\<close> takes it as a parameter, a function from paths to
  nodes that does not change during the call. The code is read with \<^verbatim>\<open>S_ISDIR\<close> defined,
  as it is wherever \<^verbatim>\<open>sys/stat.h\<close> exists. The strings of an argument vector are C strings:
  lists without a NUL.
\<close>

datatype file_node =
    No_Entry \<comment> \<open>\<^verbatim>\<open>stat\<close> fails\<close>
  | Directory \<comment> \<open>\<^verbatim>\<open>stat\<close> succeeds and \<^verbatim>\<open>S_ISDIR\<close> holds\<close>
  | Unopenable \<comment> \<open>not a directory, \<^verbatim>\<open>fopen\<close> fails\<close>
  | Unreadable \<comment> \<open>opened, but \<^verbatim>\<open>fseek\<close>, \<^verbatim>\<open>ftell\<close> or \<^verbatim>\<open>fread\<close> fails\<close>
  | Contents string \<comment> \<open>the characters read into \<^verbatim>\<open>buffer\<close>\<close>

type_synonym file_system = "string \<Rightarrow> file_node"

text \<open>\<^verbatim>\<open>exit (status)\<close> after one line on \<^verbatim>\<open>stderr\<close>.\<close>

datatype abort = Exit (status: nat) (diagnostic: string)

definition too_many_files :: "string \<Rightarrow> abort" where
  "too_many_files prog = Exit 1 (prog @ '': error: too many @-files encountered'' @ [CHR 0x0A])"

definition refers_to_directory :: "string \<Rightarrow> abort" where
  "refers_to_directory prog = Exit 1 (prog @ '': error: @-file refers to a directory'' @ [CHR 0x0A])"

text \<open>
  The arguments a response file holds: none when the buffer is blank, else what
  \<^verbatim>\<open>buildargv\<close> makes of it.
\<close>

definition file_arguments :: "string \<Rightarrow> string list" where
  "file_arguments buffer =
     (if only_whitespace buffer then [] else the (buildargv (Some buffer)))"

text \<open>
  \<^verbatim>\<open>memmove\<close> and \<^verbatim>\<open>memcpy\<close>: the element at index \<open>i\<close> gives way to \<open>file_argv\<close>, the
  elements after it (and the closing \<^verbatim>\<open>NULL\<close>) move up or down.
\<close>

definition insert_file_argv :: "nat \<Rightarrow> 'a list \<Rightarrow> 'a list \<Rightarrow> 'a list" where
  "insert_file_argv i file_argv argv = take i argv @ file_argv @ drop (i + 1) argv"

text \<open>
  One pass through the body of the \<^verbatim>\<open>while (++i < *argcp)\<close> loop of \<^verbatim>\<open>expandargv\<close>, for
  the cursor \<open>i\<close> that passed the loop test. The parameters are the local
  \<^verbatim>\<open>iteration_limit\<close> (an \<^verbatim>\<open>unsigned int\<close>, 32 bits wide, that wraps around), the cursor,
  and \<^verbatim>\<open>*argcp\<close> and \<^verbatim>\<open>*argvp\<close>. The vector is the list of its strings and \<open>argc\<close> counts
  them, as for the vector of \<^verbatim>\<open>main\<close>: the loop reads \<open>argv ! i\<close> only for \<open>i < argc\<close>,
  and the code computes the new count on its own. The result is the abort, or the four
  variables as the next loop test finds them (\<^verbatim>\<open>continue\<close> and \<^verbatim>\<open>goto error\<close> leave the
  cursor, a substitution steps it back).
\<close>

definition expand_body ::
  "file_system \<Rightarrow> 32 word \<Rightarrow> nat \<Rightarrow> nat \<Rightarrow> string list
     \<Rightarrow> abort + 32 word \<times> nat \<times> nat \<times> string list" where
  "expand_body fs iteration_limit i argc argv =
     (let filename = argv ! i
      in if peek filename \<noteq> CHR ''@'' then Inr (iteration_limit, i, argc, argv)
         else
           let limit1 = iteration_limit - 1
           in if limit1 = 0 then Inl (too_many_files (argv ! 0))
              else
                case fs (tl filename) of
                  No_Entry \<Rightarrow> Inr (limit1, i, argc, argv)
                | Directory \<Rightarrow> Inl (refers_to_directory (argv ! 0))
                | Unopenable \<Rightarrow> Inr (limit1, i, argc, argv)
                | Unreadable \<Rightarrow> Inr (limit1, i, argc, argv)
                | Contents buffer \<Rightarrow>
                    let file_argv = file_arguments buffer;
                        file_argc = length file_argv
                    in Inr (limit1, i - 1, argc + file_argc - 1, insert_file_argv i file_argv argv))"

lemma word_pred_less: "w \<noteq> 0 \<Longrightarrow> unat (w - 1) < unat w" for w :: "32 word"
  by (simp add: unat_minus_one unat_gt_0)

lemma iteration_limit_decreases:
  fixes iteration_limit :: "32 word"
  assumes "iteration_limit \<noteq> 1"
  shows "unat (iteration_limit - 2) < unat (iteration_limit - 1)"
proof -
  have "iteration_limit - 1 \<noteq> 0"
    using assms by simp
  from word_pred_less [OF this] show ?thesis
    by simp
qed

lemma expand_body_variant:
  assumes "expand_body fs iteration_limit i argc argv = Inr (limit', i', argc', argv')"
  shows "limit' = iteration_limit \<and> i' = i \<and> argc' = argc
       \<or> limit' = iteration_limit - 1 \<and> iteration_limit \<noteq> 1"
  using assms
  by (auto simp: expand_body_def Let_def split: if_splits file_node.splits)

text \<open>The loop: the test \<^verbatim>\<open>++i < *argcp\<close>, the body, and again.\<close>

function expand_loop ::
  "file_system \<Rightarrow> 32 word \<Rightarrow> nat \<Rightarrow> nat \<Rightarrow> string list \<Rightarrow> abort + nat \<times> string list" where
  "expand_loop fs iteration_limit i argc argv =
     (if i + 1 < argc then
        (case expand_body fs iteration_limit (i + 1) argc argv of
           Inl a \<Rightarrow> Inl a
         | Inr (limit', i', argc', argv') \<Rightarrow> expand_loop fs limit' i' argc' argv')
      else Inr (argc, argv))"
  by pat_completeness auto
termination
proof (relation "measures [\<lambda>(fs, iteration_limit, i, argc, argv). unat (iteration_limit - 1),
                           \<lambda>(fs, iteration_limit, i, argc, argv). argc - i]", goal_cases)
  case 1
  show ?case by simp
next
  case (2 fs iteration_limit i argc argv x2 limit' y i' z argc' argv')
  then have "expand_body fs iteration_limit (i + 1) argc argv = Inr (limit', i', argc', argv')"
    by simp
  from expand_body_variant [OF this] 2(1) show ?case
    by (auto simp: iteration_limit_decreases)
qed

declare expand_loop.simps [simp del]

text \<open>\<^verbatim>\<open>expandargv\<close>, called with a vector and the number of its elements.\<close>

definition expandargv :: "file_system \<Rightarrow> string list \<Rightarrow> abort + nat \<times> string list" where
  "expandargv fs argv = expand_loop fs 2000 0 (length argv) argv"

text \<open>The nodes that leave a candidate as it is: nothing to stat, to open or to read.\<close>

definition unresolved :: "file_node \<Rightarrow> bool" where
  "unresolved n \<longleftrightarrow> n = No_Entry \<or> n = Unopenable \<or> n = Unreadable"

section \<open>\<^verbatim>\<open>expandargv\<close> with its storage\<close>

text \<open>
  The same loop with the storage made explicit, to follow which blocks a call writes,
  resizes and frees. An address is a number and \<^verbatim>\<open>NULL\<close> is 0. The memory holds character
  blocks (strings) and pointer blocks (vectors, without the closing \<^verbatim>\<open>NULL\<close>); a freed
  block is gone. \<^verbatim>\<open>malloc\<close> hands out the addresses from \<open>fresh\<close> upwards, so what the
  caller owns lies below \<open>fresh\<close> when the call starts. \<^verbatim>\<open>realloc\<close> may move a block or
  resize it in place: \<open>moves\<close> decides, for each state of the allocator and each block,
  and is a parameter like the file system. Two fields only record what
  happens: \<open>touched\<close> collects every block that is the target of a store, a \<^verbatim>\<open>realloc\<close>
  or a \<^verbatim>\<open>free\<close>, and \<open>substitutions\<close> counts the substitutions. The character buffers
  (\<^verbatim>\<open>copybuf\<close>, \<^verbatim>\<open>buffer\<close>) are left out: they are allocated within one pass, released
  there (but for \<^verbatim>\<open>buffer\<close> after a failed read), and never hold a vector or an argument.
\<close>

type_synonym addr = nat

definition NULL :: addr where
  "NULL = 0"

record memory =
  strings :: "addr \<Rightarrow> string option"
  vectors :: "addr \<Rightarrow> addr list option"
  fresh :: addr
  moves :: "addr \<Rightarrow> addr \<Rightarrow> bool"
  touched :: "addr set"
  substitutions :: nat

text \<open>Reading a string and a vector through a pointer.\<close>

definition str :: "memory \<Rightarrow> addr \<Rightarrow> string" where
  "str h p = (case strings h p of Some s \<Rightarrow> s | None \<Rightarrow> [])"

definition vec :: "memory \<Rightarrow> addr \<Rightarrow> addr list" where
  "vec h p = (case vectors h p of Some v \<Rightarrow> v | None \<Rightarrow> [])"

text \<open>The vector as the list of its strings.\<close>

definition contents :: "memory \<Rightarrow> addr \<Rightarrow> string list" where
  "contents h p = map (str h) (vec h p)"

definition strdup :: "memory \<Rightarrow> string \<Rightarrow> addr \<times> memory" where
  "strdup h s = (fresh h, h\<lparr>strings := (strings h)(fresh h \<mapsto> s), fresh := fresh h + 1\<rparr>)"

definition malloc_vec :: "memory \<Rightarrow> addr list \<Rightarrow> addr \<times> memory" where
  "malloc_vec h v = (fresh h, h\<lparr>vectors := (vectors h)(fresh h \<mapsto> v), fresh := fresh h + 1\<rparr>)"

definition free_str :: "memory \<Rightarrow> addr \<Rightarrow> memory" where
  "free_str h p = h\<lparr>strings := (strings h)(p := None), touched := insert p (touched h)\<rparr>"

definition free_vec :: "memory \<Rightarrow> addr \<Rightarrow> memory" where
  "free_vec h p = h\<lparr>vectors := (vectors h)(p := None), touched := insert p (touched h)\<rparr>"

text \<open>\<^verbatim>\<open>realloc\<close> of a vector: in place, or into a new block with the old one released.\<close>

definition realloc_vec :: "memory \<Rightarrow> addr \<Rightarrow> addr \<times> memory" where
  "realloc_vec h p =
     (if moves h (fresh h) p
      then (fresh h,
            h\<lparr>vectors := (vectors h)(p := None, fresh h \<mapsto> vec h p), fresh := fresh h + 1,
              touched := insert p (touched h)\<rparr>)
      else (p, h\<lparr>touched := insert p (touched h)\<rparr>))"

text \<open>\<^verbatim>\<open>memmove\<close> and \<^verbatim>\<open>memcpy\<close> into a vector: the block holds \<open>v\<close> afterwards.\<close>

definition store_vec :: "memory \<Rightarrow> addr \<Rightarrow> addr list \<Rightarrow> memory" where
  "store_vec h p v = h\<lparr>vectors := (vectors h)(p \<mapsto> v), touched := insert p (touched h)\<rparr>"

text \<open>One \<^verbatim>\<open>strdup\<close> for each string of a list, in order.\<close>

fun strdup_all :: "memory \<Rightarrow> string list \<Rightarrow> addr list \<times> memory" where
  "strdup_all h [] = ([], h)"
| "strdup_all h (s # ss) =
     (case strdup h s of
        (p, h1) \<Rightarrow> (case strdup_all h1 ss of (ps, h2) \<Rightarrow> (p # ps, h2)))"

text \<open>
  A new vector of new strings: the pointer block first, then a copy of each string, stored
  in the block. Both \<^verbatim>\<open>dupargv\<close> and \<^verbatim>\<open>buildargv\<close> build their result this way
  (\<^verbatim>\<open>buildargv\<close> grows its block with \<^verbatim>\<open>realloc\<close> on the way; the block it returns is the one
  kept here).
\<close>

definition new_vector :: "memory \<Rightarrow> string list \<Rightarrow> addr \<times> memory" where
  "new_vector h ss =
     (case malloc_vec h [] of
        (v, h1) \<Rightarrow>
          (case strdup_all h1 ss of
             (ps, h2) \<Rightarrow> (v, h2\<lparr>vectors := (vectors h2)(v \<mapsto> ps)\<rparr>)))"

text \<open>\<^verbatim>\<open>dupargv\<close>: \<^verbatim>\<open>NULL\<close> for \<^verbatim>\<open>NULL\<close>, else a new vector with a copy of each string.\<close>

definition dupargv :: "memory \<Rightarrow> addr \<Rightarrow> addr \<times> memory" where
  "dupargv h argv = (if argv = NULL then (NULL, h) else new_vector h (contents h argv))"

text \<open>\<^verbatim>\<open>buildargv\<close> on a buffer that is not \<^verbatim>\<open>NULL\<close>: the arguments in a new vector.\<close>

definition buildargv_mem :: "memory \<Rightarrow> string \<Rightarrow> addr \<times> memory" where
  "buildargv_mem h input = new_vector h (the (buildargv (Some input)))"

text \<open>
  One pass through the body of the loop. \<open>original_argv\<close> is the pointer the caller passed;
  \<open>argvp\<close> is \<^verbatim>\<open>*argvp\<close>. An abort comes with the memory as it is when the process
  exits.
\<close>

definition expand_body_mem ::
  "file_system \<Rightarrow> addr \<Rightarrow> 32 word \<Rightarrow> nat \<Rightarrow> nat \<Rightarrow> addr \<Rightarrow> memory
     \<Rightarrow> abort \<times> memory + 32 word \<times> nat \<times> nat \<times> addr \<times> memory" where
  "expand_body_mem fs original_argv iteration_limit i argc argvp h =
     (let filename = str h (vec h argvp ! i)
      in if peek filename \<noteq> CHR ''@'' then Inr (iteration_limit, i, argc, argvp, h)
         else
           let limit1 = iteration_limit - 1
           in if limit1 = 0 then Inl (too_many_files (str h (vec h argvp ! 0)), h)
              else
                case fs (tl filename) of
                  No_Entry \<Rightarrow> Inr (limit1, i, argc, argvp, h)
                | Directory \<Rightarrow> Inl (refers_to_directory (str h (vec h argvp ! 0)), h)
                | Unopenable \<Rightarrow> Inr (limit1, i, argc, argvp, h)
                | Unreadable \<Rightarrow> Inr (limit1, i, argc, argvp, h)
                | Contents buffer \<Rightarrow>
                    (case (if only_whitespace buffer then malloc_vec h []
                           else buildargv_mem h buffer) of
                       (file_argv, h1) \<Rightarrow>
                         (case (if argvp = original_argv then dupargv h1 argvp
                                else (argvp, h1)) of
                            (argvp1, h2) \<Rightarrow>
                              let file_argc = length (vec h2 file_argv);
                                  h3 = free_str h2 (vec h2 argvp1 ! i)
                              in case realloc_vec h3 argvp1 of
                                   (argvp2, h4) \<Rightarrow>
                                     let h5 = store_vec h4 argvp2
                                                (insert_file_argv i (vec h4 file_argv) (vec h4 argvp2));
                                         h6 = free_vec h5 file_argv
                                     in Inr (limit1, i - 1, argc + file_argc - 1, argvp2,
                                             h6\<lparr>substitutions := substitutions h6 + 1\<rparr>))))"

lemma expand_body_mem_variant:
  assumes "expand_body_mem fs original_argv iteration_limit i argc argvp h
             = Inr (limit', i', argc', argvp', h')"
  shows "limit' = iteration_limit \<and> i' = i \<and> argc' = argc
       \<or> limit' = iteration_limit - 1 \<and> iteration_limit \<noteq> 1"
  using assms
  by (auto simp: expand_body_mem_def Let_def split: if_splits file_node.splits prod.splits)

function expand_loop_mem ::
  "file_system \<Rightarrow> addr \<Rightarrow> 32 word \<Rightarrow> nat \<Rightarrow> nat \<Rightarrow> addr \<Rightarrow> memory
     \<Rightarrow> abort \<times> memory + nat \<times> addr \<times> memory" where
  "expand_loop_mem fs original_argv iteration_limit i argc argvp h =
     (if i + 1 < argc then
        (case expand_body_mem fs original_argv iteration_limit (i + 1) argc argvp h of
           Inl a \<Rightarrow> Inl a
         | Inr (limit', i', argc', argvp', h') \<Rightarrow>
             expand_loop_mem fs original_argv limit' i' argc' argvp' h')
      else Inr (argc, argvp, h))"
  by pat_completeness auto
termination
proof (relation "measures [\<lambda>(fs, original_argv, iteration_limit, i, argc, argvp, h).
                             unat (iteration_limit - 1),
                           \<lambda>(fs, original_argv, iteration_limit, i, argc, argvp, h). argc - i]",
    goal_cases)
  case 1
  show ?case by simp
next
  case (2 fs original_argv iteration_limit i argc argvp h x2 limit' y i' z argc' w argvp' h')
  then have "expand_body_mem fs original_argv iteration_limit (i + 1) argc argvp h
               = Inr (limit', i', argc', argvp', h')"
    by simp
  from expand_body_mem_variant [OF this] 2(1) show ?case
    by (auto simp: iteration_limit_decreases)
qed

declare expand_loop_mem.simps [simp del]

text \<open>
  \<^verbatim>\<open>expandargv (&argc, &argv)\<close>: \<^verbatim>\<open>original_argv\<close> is \<^verbatim>\<open>*argvp\<close> at the call, the counter
  starts at 2000 and the cursor at 0.
\<close>

definition expandargv_mem ::
  "file_system \<Rightarrow> nat \<Rightarrow> addr \<Rightarrow> memory
     \<Rightarrow> abort \<times> memory + nat \<times> addr \<times> memory" where
  "expandargv_mem fs argc argvp h = expand_loop_mem fs argvp 2000 0 argc argvp h"

subsection \<open>Invariants of the loop\<close>

text \<open>
  What holds of \<^verbatim>\<open>*argvp\<close> and the memory \<open>h\<close> at every loop test, for a call that started
  in the memory \<open>h0\<close>: nothing below the first fresh address of \<open>h0\<close> has changed or been
  touched, the count is the length of the vector, and the vector is the caller's until the
  first substitution and lies in fresh storage, as its elements do, ever after.
\<close>

definition frame_inv :: "addr \<Rightarrow> memory \<Rightarrow> nat \<Rightarrow> addr \<Rightarrow> memory \<Rightarrow> bool" where
  "frame_inv original_argv h0 argc argvp h \<longleftrightarrow>
     fresh h0 \<le> fresh h
   \<and> moves h = moves h0
   \<and> (\<forall>a<fresh h0. strings h a = strings h0 a \<and> vectors h a = vectors h0 a)
   \<and> (\<forall>a\<in>touched h. a \<in> touched h0 \<or> fresh h0 \<le> a)
   \<and> substitutions h0 \<le> substitutions h
   \<and> argc = length (vec h argvp)
   \<and> (substitutions h = substitutions h0 \<longrightarrow> argvp = original_argv \<and> h = h0)
   \<and> (substitutions h0 < substitutions h \<longrightarrow>
        fresh h0 \<le> argvp \<and> argvp < fresh h \<and> (\<forall>p\<in>set (vec h argvp). fresh h0 \<le> p))"

text \<open>With it: the elements are below the fresh address, and those of a copy differ.\<close>

definition copy_inv :: "addr \<Rightarrow> memory \<Rightarrow> nat \<Rightarrow> addr \<Rightarrow> memory \<Rightarrow> bool" where
  "copy_inv original_argv h0 argc argvp h \<longleftrightarrow>
     frame_inv original_argv h0 argc argvp h
   \<and> (\<forall>p\<in>set (vec h argvp). p < fresh h)
   \<and> (argvp \<noteq> original_argv \<longrightarrow> distinct (vec h argvp))"

section \<open>Single-quote mode, as claim C1 is amended\<close>

text \<open>
  This one definition follows the amended claim, not the source, to be compared with
  \<open>scan_arg\<close>. It reads the text that follows an opening single quote, with no escape
  pending: an unescaped single quote closes the mode; a backslash is not copied and the
  character after it is copied literally, whatever it is; every other character is copied
  literally. The result is the text copied and how the reading ended: \<open>Closed rest\<close> when
  the closing quote was found, with the input after it, or \<open>Unterminated pending rest\<close>
  when the string ended first (\<open>rest\<close> is then empty or begins with the NUL), with
  \<open>pending\<close> telling whether a backslash came last.
\<close>

datatype squote_end = Closed string | Unterminated bool string

fun squote_mode_spec :: "string \<Rightarrow> string \<times> squote_end" where
  "squote_mode_spec [] = ([], Unterminated False [])"
| "squote_mode_spec (c # cs) =
     (if c = EOS then ([], Unterminated False (c # cs))
      else if c = backslash_char then
        (case cs of
           [] \<Rightarrow> ([], Unterminated True [])
         | d # ds \<Rightarrow>
             if d = EOS then ([], Unterminated True (d # ds))
             else (case squote_mode_spec ds of (t, e) \<Rightarrow> (d # t, e)))
      else if c = squote_char then ([], Closed cs)
      else (case squote_mode_spec cs of (t, e) \<Rightarrow> (c # t, e)))"

section \<open>Inputs of the examples\<close>

definition in_squote :: quoting where
  "in_squote = \<lparr>squote = True, dquote = False, bsquote = False\<rparr>"

text \<open>
  A file system with a response file of two options, a blank one, one that names another
  response file, a directory and a file that cannot be opened.
\<close>

definition example_fs :: file_system where
  "example_fs path =
     (if path = ''resp'' then Contents ''-a -b''
      else if path = ''blank'' then Contents ('' '' @ [CHR 0x0A])
      else if path = ''outer'' then Contents ''@resp x''
      else if path = ''dir'' then Directory
      else if path = ''locked'' then Unopenable
      else No_Entry)"

definition no_files :: file_system where
  "no_files path = No_Entry"


definition all_directories :: file_system where
  "all_directories path = Directory"

definition blank_fs :: file_system where
  "blank_fs path = (if path = ''blank'' then Contents ''  '' else No_Entry)"

text \<open>
  A memory with the vector of the specification's example at address 1, its strings at 2
  to 5, and a \<^verbatim>\<open>realloc\<close> that always moves.
\<close>

definition example_memory :: memory where
  "example_memory =
     \<lparr>strings = [2 \<mapsto> ''prog'', 3 \<mapsto> ''-x'', 4 \<mapsto> ''@resp'', 5 \<mapsto> ''-y''],
      vectors = [1 \<mapsto> [2, 3, 4, 5]],
      fresh = 6, moves = (\<lambda>n p. True), touched = {}, substitutions = 0\<rparr>"

section \<open>Properties of the tokenizer\<close>

lemmas char_defs = EOS_def isspace_def squote_char_def dquote_char_def backslash_char_def

subsection \<open>Single-quote mode\<close>

lemma quoting_no_pending: "\<not> bsquote q \<Longrightarrow> q\<lparr>bsquote := False\<rparr> = q"
  by (cases q) simp

text \<open>The scan in single-quote mode does what the amended claim says, character by character.\<close>

lemma scan_arg_squote_mode:
  assumes "squote q" and "\<not> bsquote q"
  shows "scan_arg q s arg =
           (case squote_mode_spec s of
              (t, Closed rest) \<Rightarrow> scan_arg (q\<lparr>squote := False\<rparr>) rest (arg @ t)
            | (t, Unterminated pending rest) \<Rightarrow> (q\<lparr>bsquote := pending\<rparr>, rest, arg @ t))"
  using assms
proof (induction s arbitrary: arg rule: squote_mode_spec.induct)
  case 1
  then show ?case
    by (simp add: quoting_no_pending)
next
  case (2 c cs)
  note np = quoting_no_pending [OF "2.prems"(2)]
  show ?case
  proof (cases "c = EOS")
    case True
    then show ?thesis
      by (simp add: np)
  next
    case nz: False
    show ?thesis
    proof (cases "c = backslash_char")
      case bs: True
      show ?thesis
      proof (cases cs)
        case Nil
        with nz bs "2.prems" show ?thesis
          by simp
      next
        case (Cons d ds)
        show ?thesis
        proof (cases "d = EOS")
          case True
          with nz bs Cons "2.prems" show ?thesis
            by simp
        next
          case False
          from "2.IH"(1) [OF nz bs Cons False "2.prems", of "arg @ [d]"]
          show ?thesis
            using nz bs Cons False "2.prems"
            by (simp add: np split: prod.splits squote_end.splits)
        qed
      qed
    next
      case nb: False
      show ?thesis
      proof (cases "c = squote_char")
        case True
        with nz nb "2.prems" show ?thesis
          by simp
      next
        case False
        from "2.IH"(2) [OF nz nb False "2.prems", of "arg @ [c]"]
        show ?thesis
          using nz nb False "2.prems" by (simp split: prod.splits squote_end.splits)
      qed
    qed
  qed
qed

lemma squote_mode_spec_plain:
  assumes "list_all (\<lambda>c. c \<noteq> EOS \<and> c \<noteq> squote_char \<and> c \<noteq> backslash_char) w"
  shows "squote_mode_spec (w @ s) = (w @ fst (squote_mode_spec s), snd (squote_mode_spec s))"
  using assms by (induction w) (auto split: prod.splits)

lemma squote_mode_spec_quote: "squote_mode_spec (squote_char # s) = ([], Closed s)"
  by (simp add: char_defs)

lemma squote_mode_spec_escape:
  "c \<noteq> EOS \<Longrightarrow> squote_mode_spec (backslash_char # c # s)
     = (c # fst (squote_mode_spec s), snd (squote_mode_spec s))"
  by (simp add: char_defs split: prod.splits)

lemma squote_mode_spec_unterminated:
  "squote_mode_spec s = (t, Unterminated pending rest)
     \<Longrightarrow> consume_whitespace rest = rest \<and> peek rest = EOS"
proof (induction s arbitrary: t rule: squote_mode_spec.induct)
  case 1
  then show ?case
    by auto
next
  case (2 c cs)
  then show ?case
    by (auto simp: isspace_EOS split: if_splits list.splits prod.splits)
qed

lemma open_squote: "scan_arg no_quoting (squote_char # s) [] = scan_arg in_squote s []"
  by (simp add: no_quoting_def in_squote_def char_defs)

text \<open>A string that opens with a single quote and ends in single-quote mode or with its close.\<close>

lemma buildargv_squote_mode:
  assumes "squote_mode_spec s = (t, e)"
    and "e = Closed [] \<or> (\<exists>pending rest. e = Unterminated pending rest)"
  shows "buildargv (Some (squote_char # s)) = Some [t]"
proof -
  have sq: "squote in_squote" "\<not> bsquote in_squote"
    by (simp_all add: in_squote_def)
  have start: "consume_whitespace (squote_char # s) = squote_char # s"
    by (simp add: char_defs)
  from assms(2)
  have "\<exists>q r. scan_arg in_squote s [] = (q, r, t) \<and> consume_whitespace r = r \<and> peek r = EOS"
  proof
    assume "e = Closed []"
    with assms(1) scan_arg_squote_mode [OF sq, of s "[]"] show ?thesis
      by simp
  next
    assume "\<exists>pending rest. e = Unterminated pending rest"
    then obtain pending rest where e: "e = Unterminated pending rest"
      by blast
    with assms(1) scan_arg_squote_mode [OF sq, of s "[]"]
      squote_mode_spec_unterminated [of s t pending rest]
    show ?thesis
      by simp
  qed
  then obtain q r where sc: "scan_arg in_squote s [] = (q, r, t)"
    and cw: "consume_whitespace r = r" and pk: "peek r = EOS"
    by blast
  have "buildargv_loop no_quoting 0 [] (squote_char # s) = [t]"
    by (subst buildargv_loop.simps)
      (simp only: start open_squote sc cw pk Let_def prod.case, simp)
  then show ?thesis
    by (simp add: buildargv_def)
qed

text \<open>
  Claim C1, as amended. In single-quote mode with no escape pending the scan of any input
  \<open>s\<close> is the reading of the amended claim (\<open>squote_mode_spec\<close>): when that reading closes,
  the scan has copied its text \<open>t\<close> behind the buffer, left single-quote mode and goes on
  with the input after the quote; when the string ends first, the scan returns the flags
  (escape pending or not), the end of the input and the buffer with \<open>t\<close> behind it. So a
  text that closes at the end of the input leaves the buffer with \<open>t\<close> as the result of the
  scan, and the input made of a single quote and \<open>s\<close> tokenizes to the one argument \<open>t\<close>,
  also when the quote is never closed. In particular, for runs \<open>w\<close> and \<open>w'\<close> of characters
  other than the single quote and the backslash (whitespace and double quotes included)
  and any character \<open>c\<close>: \<^verbatim>\<open>'w'\<close> tokenizes to \<open>w\<close>, and \<^verbatim>\<open>'w\cw''\<close> to \<open>w\<close>, \<open>c\<close>, \<open>w'\<close>, the
  backslash dropped and \<open>c\<close> kept, a single quote included.
\<close>

theorem squote_mode_scan:
  assumes "squote q" and "\<not> bsquote q"
  shows "scan_arg q s arg =
           (case squote_mode_spec s of
              (t, Closed rest) \<Rightarrow> scan_arg (q\<lparr>squote := False\<rparr>) rest (arg @ t)
            | (t, Unterminated pending rest) \<Rightarrow> (q\<lparr>bsquote := pending\<rparr>, rest, arg @ t))
       \<and> (squote_mode_spec s = (t, Closed []) \<longrightarrow>
            scan_arg q s arg = (q\<lparr>squote := False\<rparr>, [], arg @ t))
       \<and> (squote_mode_spec s = (t, Closed []) \<or> squote_mode_spec s = (t, Unterminated pending rest) \<longrightarrow>
            buildargv (Some (squote_char # s)) = Some [t])
       \<and> (list_all (\<lambda>c. c \<noteq> EOS \<and> c \<noteq> squote_char \<and> c \<noteq> backslash_char) w \<longrightarrow>
            scan_arg q (w @ [squote_char]) arg = (q\<lparr>squote := False\<rparr>, [], arg @ w)
          \<and> buildargv (Some (squote_char # w @ [squote_char])) = Some [w])
       \<and> (list_all (\<lambda>c. c \<noteq> EOS \<and> c \<noteq> squote_char \<and> c \<noteq> backslash_char) w
          \<and> list_all (\<lambda>c. c \<noteq> EOS \<and> c \<noteq> squote_char \<and> c \<noteq> backslash_char) w'
          \<and> c \<noteq> EOS \<longrightarrow>
            scan_arg q (w @ backslash_char # c # w' @ [squote_char]) arg
              = (q\<lparr>squote := False\<rparr>, [], arg @ w @ c # w')
          \<and> buildargv (Some (squote_char # w @ backslash_char # c # w' @ [squote_char]))
              = Some [w @ c # w'])"
proof (intro conjI impI)
  note main = scan_arg_squote_mode [OF assms]
  show "scan_arg q s arg =
           (case squote_mode_spec s of
              (t, Closed rest) \<Rightarrow> scan_arg (q\<lparr>squote := False\<rparr>) rest (arg @ t)
            | (t, Unterminated pending rest) \<Rightarrow> (q\<lparr>bsquote := pending\<rparr>, rest, arg @ t))"
    by (rule main)
  show "scan_arg q s arg = (q\<lparr>squote := False\<rparr>, [], arg @ t)"
    if "squote_mode_spec s = (t, Closed [])"
    using that main [of s arg] by simp
  show "buildargv (Some (squote_char # s)) = Some [t]"
    if "squote_mode_spec s = (t, Closed []) \<or> squote_mode_spec s = (t, Unterminated pending rest)"
    using that buildargv_squote_mode [of s t] by blast
  {
    assume w: "list_all (\<lambda>c. c \<noteq> EOS \<and> c \<noteq> squote_char \<and> c \<noteq> backslash_char) w"
    have sp: "squote_mode_spec (w @ [squote_char]) = (w, Closed [])"
      by (simp only: squote_mode_spec_plain [OF w] squote_mode_spec_quote) simp
    show "scan_arg q (w @ [squote_char]) arg = (q\<lparr>squote := False\<rparr>, [], arg @ w)"
      using main [of "w @ [squote_char]" arg] by (simp add: sp)
    show "buildargv (Some (squote_char # w @ [squote_char])) = Some [w]"
      using sp by (rule buildargv_squote_mode) simp
  }
  {
    assume a: "list_all (\<lambda>c. c \<noteq> EOS \<and> c \<noteq> squote_char \<and> c \<noteq> backslash_char) w
          \<and> list_all (\<lambda>c. c \<noteq> EOS \<and> c \<noteq> squote_char \<and> c \<noteq> backslash_char) w'
          \<and> c \<noteq> EOS"
    then have w: "list_all (\<lambda>c. c \<noteq> EOS \<and> c \<noteq> squote_char \<and> c \<noteq> backslash_char) w"
      and w': "list_all (\<lambda>c. c \<noteq> EOS \<and> c \<noteq> squote_char \<and> c \<noteq> backslash_char) w'"
      and c: "c \<noteq> EOS"
      by simp_all
    have "squote_mode_spec (w' @ [squote_char]) = (w', Closed [])"
      by (simp only: squote_mode_spec_plain [OF w'] squote_mode_spec_quote) simp
    then have "squote_mode_spec (backslash_char # c # w' @ [squote_char]) = (c # w', Closed [])"
      by (simp only: squote_mode_spec_escape [OF c]) simp
    then have sp: "squote_mode_spec (w @ backslash_char # c # w' @ [squote_char])
                     = (w @ c # w', Closed [])"
      by (simp only: squote_mode_spec_plain [OF w]) simp
    show "scan_arg q (w @ backslash_char # c # w' @ [squote_char]) arg
            = (q\<lparr>squote := False\<rparr>, [], arg @ w @ c # w')"
      using main [of "w @ backslash_char # c # w' @ [squote_char]" arg] by (simp add: sp)
    show "buildargv (Some (squote_char # w @ backslash_char # c # w' @ [squote_char]))
            = Some [w @ c # w']"
      using sp by (rule buildargv_squote_mode) simp
  }
qed

text \<open>
  The text \<^verbatim>\<open>b "\'c\<close> in single quotes, and the text \<^verbatim>\<open>b c\<close> behind a quote that is
  never closed.
\<close>

theorem squote_mode_scan_witness:
  "scan_arg in_squote (''b '' @ [dquote_char, backslash_char, squote_char] @ ''c'' @ [squote_char]) ''a''
     = (no_quoting, [], ''ab '' @ [dquote_char, squote_char] @ ''c'')
   \<and> buildargv (Some (squote_char # ''b '' @ [dquote_char, backslash_char, squote_char] @ ''c''
                        @ [squote_char]))
     = Some [''b '' @ [dquote_char, squote_char] @ ''c'']
   \<and> scan_arg in_squote ''b c'' ''a'' = (in_squote, [], ''ab c'')
   \<and> buildargv (Some (squote_char # ''b c'')) = Some [''b c'']
   \<and> scan_arg in_squote (''b c'' @ [backslash_char]) ''a''
     = (in_squote\<lparr>bsquote := True\<rparr>, [], ''ab c'')"
proof -
  have h1: "squote in_squote" and h2: "\<not> bsquote in_squote"
    by (simp_all add: in_squote_def)
  have w: "list_all (\<lambda>c. c \<noteq> EOS \<and> c \<noteq> squote_char \<and> c \<noteq> backslash_char)
             (''b '' @ [dquote_char])
         \<and> list_all (\<lambda>c. c \<noteq> EOS \<and> c \<noteq> squote_char \<and> c \<noteq> backslash_char) ''c''
         \<and> squote_char \<noteq> EOS"
    by (simp add: char_defs)
  have u: "squote_mode_spec ''b c'' = (''b c'', Unterminated False [])"
    and p: "squote_mode_spec (''b c'' @ [backslash_char]) = (''b c'', Unterminated True [])"
    by (simp_all add: char_defs)
  have q: "in_squote\<lparr>squote := False\<rparr> = no_quoting" "in_squote\<lparr>bsquote := False\<rparr> = in_squote"
    by (simp_all add: in_squote_def no_quoting_def)
  show ?thesis
    using squote_mode_scan [OF h1 h2, where w = "''b '' @ [dquote_char]" and w' = "''c''"
        and c = squote_char and arg = "''a''" and s = "''b c''" and t = "''b c''"
        and pending = False and rest = "[]"]
      squote_mode_scan [OF h1 h2, where arg = "''a''" and s = "''b c'' @ [backslash_char]"]
      w u p q
    by simp
qed

text \<open>
  Claim C1 as stated fails: inside single quotes the backslash is not copied and starts
  escape mode. The input \<^verbatim>\<open>'a\b'\<close> gives the one argument \<^verbatim>\<open>ab\<close>, not \<^verbatim>\<open>a\b\<close>.
\<close>

theorem squote_backslash_counterexample:
  "buildargv (Some ([squote_char] @ ''a'' @ [backslash_char] @ ''b'' @ [squote_char])) = Some [''ab'']
   \<and> buildargv (Some ([squote_char] @ ''a'' @ [backslash_char] @ ''b'' @ [squote_char]))
       \<noteq> Some [''a'' @ [backslash_char] @ ''b'']
   \<and> scan_arg in_squote (backslash_char # ''b'') ''a''
       \<noteq> scan_arg in_squote ''b'' (''a'' @ [backslash_char])
   \<and> bsquote (fst (scan_arg in_squote [backslash_char] ''a''))"
  by (simp add: in_squote_def char_defs buildargv_def buildargv_loop.simps no_quoting_def
      INITIAL_MAXARGC_def)

subsection \<open>Empty and blank inputs\<close>

lemma consume_whitespace_all: "list_all isspace s \<Longrightarrow> consume_whitespace s = []"
  by (induction s) auto

text \<open>
  Claim C2. For an input that is present and is the empty string or holds only whitespace,
  \<^verbatim>\<open>buildargv\<close> returns the vector with exactly one element, the empty string.
\<close>

theorem buildargv_blank:
  assumes "\<forall>c \<in> set s. isspace c"
  shows "buildargv (Some s) = Some [[]]"
proof -
  have "consume_whitespace s = []"
    using assms by (simp add: consume_whitespace_all list_all_iff)
  then show ?thesis
    by (simp add: buildargv_def buildargv_loop.simps)
qed

theorem buildargv_blank_witness:
  "buildargv (Some []) = Some [[]] \<and> buildargv (Some ''   '') = Some [[]]
   \<and> length (the (buildargv (Some ''   ''))) = 1"
proof -
  have h0: "\<forall>c \<in> set []. isspace c"
    by simp
  have h3: "\<forall>c \<in> set ''   ''. isspace c"
    by (simp add: isspace_def)
  show ?thesis
    using buildargv_blank [OF h0] buildargv_blank [OF h3] by simp
qed

subsection \<open>Quote stripping\<close>


subsection \<open>The working buffer\<close>

lemma strlen_consume_whitespace: "strlen (consume_whitespace s) \<le> strlen s"
  by (induction s) (auto simp: isspace_EOS)

lemma scan_arg_bound:
  "scan_arg q s arg = (q', rest, arg') \<Longrightarrow> length arg' + strlen rest \<le> length arg + strlen s"
  by (induction q s arg rule: scan_arg.induct) (auto split: if_splits)

lemma buildargv_loop_bound:
  "a \<in> set (buildargv_loop q m argv s) \<Longrightarrow> a \<in> set argv \<or> length a \<le> strlen s"
proof (induction q m argv s rule: buildargv_loop.induct)
  case (1 q maxargc argv input)
  obtain q1 input2 arg where sc: "scan_arg q (consume_whitespace input) [] = (q1, input2, arg)"
    by (cases "scan_arg q (consume_whitespace input) []") auto
  from scan_arg_bound [OF sc] have b: "length arg + strlen input2 \<le> strlen input"
    using strlen_consume_whitespace [of input] by simp
  show ?case
  proof (cases "peek (consume_whitespace input2) \<noteq> EOS")
    case True
    with "1.prems" sc have "a \<in> set (buildargv_loop q1
           (if maxargc = 0 \<or> length argv \<ge> maxargc - 1
            then (if argv = [] then INITIAL_MAXARGC else maxargc * 2)
            else maxargc) (argv @ [arg]) (consume_whitespace input2))"
      by (subst (asm) buildargv_loop.simps) (simp add: Let_def)
    with "1.IH" [OF refl refl sc [symmetric] refl refl refl True]
    have "a \<in> set (argv @ [arg]) \<or> length a \<le> strlen (consume_whitespace input2)"
      by simp
    then show ?thesis
      using b strlen_consume_whitespace [of input2] by auto
  next
    case False
    with "1.prems" sc have "a \<in> set (argv @ [arg])"
      by (subst (asm) buildargv_loop.simps) (simp add: Let_def)
    then show ?thesis
      using b by auto
  qed
qed

text \<open>
  Claim C10. Every argument \<^verbatim>\<open>buildargv\<close> produces is at most as long as the input string,
  so its characters and the terminator written after them (at the index that is its
  length) lie inside the working buffer of \<^verbatim>\<open>strlen (input) + 1\<close> characters.
\<close>

theorem buildargv_arg_length:
  assumes "buildargv (Some input) = Some argv"
  shows "\<forall>a \<in> set argv. length a \<le> strlen input \<and> length a < strlen input + 1"
proof
  fix a assume "a \<in> set argv"
  with assms have "a \<in> set (buildargv_loop no_quoting 0 [] input)"
    by (simp add: buildargv_def)
  from buildargv_loop_bound [OF this] have "length a \<le> strlen input"
    by simp
  then show "length a \<le> strlen input \<and> length a < strlen input + 1"
    by simp
qed

theorem buildargv_arg_length_witness:
  "buildargv (Some (''a '' @ [dquote_char] @ ''b c'' @ [dquote_char] @ '' d''))
     = Some [''a'', ''b c'', ''d'']
   \<and> list_all (\<lambda>a. length a \<le> strlen (''a '' @ [dquote_char] @ ''b c'' @ [dquote_char] @ '' d''))
       [''a'', ''b c'', ''d'']"
proof -
  have h: "buildargv (Some (''a '' @ [dquote_char] @ ''b c'' @ [dquote_char] @ '' d''))
             = Some [''a'', ''b c'', ''d'']"
    by (simp add: buildargv_def no_quoting_def buildargv_loop.simps char_defs INITIAL_MAXARGC_def)
  show ?thesis
    using buildargv_arg_length [OF h] h by (simp add: list_all_iff)
qed

section \<open>Properties of the expansion\<close>


lemma expand_loop_abort:
  "i + 1 < argc \<Longrightarrow> expand_body fs l (i + 1) argc argv = Inl a \<Longrightarrow> expand_loop fs l i argc argv = Inl a"
  by (simp add: expand_loop.simps)

lemma expand_loop_next:
  "i + 1 < argc \<Longrightarrow> expand_body fs l (i + 1) argc argv = Inr (l', i', argc', argv')
     \<Longrightarrow> expand_loop fs l i argc argv = expand_loop fs l' i' argc' argv'"
  by (simp add: expand_loop.simps)


lemma expand_body_limit:
  "peek (argv ! i) = CHR ''@'' \<Longrightarrow> l - 1 = 0 \<Longrightarrow> expand_body fs l i argc argv = Inl (too_many_files (argv ! 0))"
  by (simp add: expand_body_def)

lemma expand_body_unresolved:
  "peek (argv ! i) = CHR ''@'' \<Longrightarrow> l - 1 \<noteq> 0 \<Longrightarrow> unresolved (fs (tl (argv ! i)))
     \<Longrightarrow> expand_body fs l i argc argv = Inr (l - 1, i, argc, argv)"
  by (auto simp: expand_body_def unresolved_def)


lemma expand_body_contents:
  "peek (argv ! i) = CHR ''@'' \<Longrightarrow> l - 1 \<noteq> 0 \<Longrightarrow> fs (tl (argv ! i)) = Contents buffer
     \<Longrightarrow> expand_body fs l i argc argv =
          Inr (l - 1, i - 1, argc + length (file_arguments buffer) - 1,
               insert_file_argv i (file_arguments buffer) argv)"
  by (auto simp: expand_body_def Let_def)

lemma unat_limit_pred:
  fixes l :: "32 word"
  assumes "l - 1 \<noteq> 0"
  shows "unat (l - 1 - 1) = unat (l - 1) - 1"
  using assms by (rule unat_minus_one)

lemma skip_unresolved:
  assumes "list_all (\<lambda>x. peek x = CHR ''@'' \<and> unresolved (fs (tl x))) mid"
    and "length pre = i + 1" and "length mid \<le> unat (l - 1)"
  shows "expand_loop fs l i (length (pre @ mid @ post)) (pre @ mid @ post)
       = expand_loop fs (l - of_nat (length mid)) (i + length mid)
           (length (pre @ mid @ post)) (pre @ mid @ post)"
  using assms
proof (induction mid arbitrary: pre i l)
  case Nil
  then show ?case by simp
next
  case (Cons x xs)
  let ?argv = "pre @ (x # xs) @ post"
  have x: "?argv ! (i + 1) = x" using Cons.prems(2) by (simp add: nth_append)
  have l: "l - 1 \<noteq> 0" using Cons.prems(3) by (auto simp: unat_eq_0)
  have lt: "i + 1 < length ?argv" using Cons.prems(2) by simp
  have body: "expand_body fs l (i + 1) (length ?argv) ?argv = Inr (l - 1, i + 1, length ?argv, ?argv)"
    using Cons.prems(1) l x by (intro expand_body_unresolved) simp_all
  have "length xs \<le> unat (l - 1 - 1)"
    using Cons.prems(3) unat_limit_pred [OF l] by simp
  from Cons.IH [of "pre @ [x]" "i + 1" "l - 1" ] this Cons.prems(1,2)
  have "expand_loop fs (l - 1) (i + 1) (length ?argv) ?argv
       = expand_loop fs (l - 1 - of_nat (length xs)) (i + 1 + length xs) (length ?argv) ?argv"
    by simp
  with expand_loop_next [OF lt body] show ?case
    by (simp add: algebra_simps)
qed

lemma length_insert_file_argv:
  "i < length argv \<Longrightarrow> length (insert_file_argv i file_argv argv) = length argv + length file_argv - 1"
  by (simp add: insert_file_argv_def)


lemma insert_file_argv_nth_inserted:
  "j < length file_argv \<Longrightarrow> i \<le> length argv \<Longrightarrow> insert_file_argv i file_argv argv ! (i + j) = file_argv ! j"
  by (simp add: insert_file_argv_def nth_append)


lemma budget_exhausted:
  assumes "peek x = CHR ''@''" and "unresolved (fs (tl x))" and "peek y = CHR ''@''"
  shows "expandargv fs (prog # replicate 1999 x @ y # rest) = Inl (too_many_files prog)"
proof -
  let ?argv = "[prog] @ replicate 1999 x @ (y # rest)"
  have "expand_loop fs 2000 0 (length ?argv) ?argv
        = expand_loop fs (2000 - of_nat (length (replicate 1999 x))) (0 + length (replicate 1999 x)) (length ?argv) ?argv"
    using assms(1,2) by (intro skip_unresolved) (simp_all add: list_all_iff)
  also have "\<dots> = expand_loop fs 1 1999 (length ?argv) ?argv"
    by simp
  also have "\<dots> = Inl (too_many_files (?argv ! 0))"
  proof (rule expand_loop_abort)
    show "1999 + 1 < length ?argv" by simp
    have "?argv ! (1999 + 1) = y" by (simp add: nth_append)
    then show "expand_body fs 1 (1999 + 1) (length ?argv) ?argv = Inl (too_many_files (?argv ! 0))"
      using assms(3) by (intro expand_body_limit) simp_all
  qed
  finally show ?thesis by (simp add: expandargv_def)
qed


lemma many_unresolved:
  assumes "peek x = CHR ''@''" and "unresolved (fs (tl x))" and "2000 \<le> n"
  shows "expandargv fs (prog # replicate n x) = Inl (too_many_files prog)"
proof -
  have "replicate (1999 + Suc (n - 2000)) x = replicate 1999 x @ x # replicate (n - 2000) x"
    by (simp only: replicate_add replicate_Suc)
  moreover have "1999 + Suc (n - 2000) = n"
    using assms(3) by simp
  ultimately have "replicate n x = replicate 1999 x @ x # replicate (n - 2000) x"
    by (simp only:)
  then show ?thesis
    using budget_exhausted [where fs = fs and x = x and y = x and prog = prog
        and rest = "replicate (n - 2000) x", OF assms(1,2,1)] by simp
qed


lemmas eval_defs = buildargv_def buildargv_loop.simps no_quoting_def INITIAL_MAXARGC_def
  file_arguments_def insert_file_argv_def expand_body_def expand_loop.simps expandargv_def
  too_many_files_def refers_to_directory_def example_fs_def unresolved_def

lemma buildargv_only_whitespace: "list_all isspace s \<Longrightarrow> buildargv (Some s) = Some [[]]"
  by (simp add: buildargv_def buildargv_loop.simps consume_whitespace_all)

lemma only_whitespace_all: "list_all isspace s \<Longrightarrow> only_whitespace s"
  by (induction s) (auto simp: isspace_EOS)

lemma file_arguments_blank: "list_all isspace buffer \<Longrightarrow> file_arguments buffer = []"
  by (simp add: file_arguments_def only_whitespace_all)

subsection \<open>The budget of response files\<close>



subsection \<open>Candidates that cannot be read\<close>

text \<open>
  Claim C7, as amended. When the scan reaches a candidate whose path cannot be statted
  (or does not exist), cannot be opened or cannot be read, and the candidate does not
  use up the budget, the pass changes nothing but the counter: the vector and the count
  stay, and the loop goes on from the next element.
\<close>

theorem unresolved_candidate_left:
  assumes "i + 1 < argc" and "peek (argv ! (i + 1)) = CHR ''@''"
    and "unresolved (fs (tl (argv ! (i + 1))))" and "l - 1 \<noteq> 0"
  shows "expand_body fs l (i + 1) argc argv = Inr (l - 1, i + 1, argc, argv)
       \<and> expand_loop fs l i argc argv = expand_loop fs (l - 1) (i + 1) argc argv"
proof -
  have body: "expand_body fs l (i + 1) argc argv = Inr (l - 1, i + 1, argc, argv)"
    using assms(2,4,3) by (rule expand_body_unresolved)
  with expand_loop_next [OF assms(1) body] show ?thesis
    by simp
qed

text \<open>A missing and an unopenable file, left in place.\<close>

theorem unresolved_candidate_left_witness:
  "expand_body example_fs 2000 (1 + 1) 4 [''prog'', ''-x'', ''@none'', ''@locked'']
     = Inr (2000 - 1, 1 + 1, 4, [''prog'', ''-x'', ''@none'', ''@locked''])
   \<and> expand_loop example_fs (2000 - 1) 2 4 [''prog'', ''-x'', ''@none'', ''@locked'']
     = expand_loop example_fs (2000 - 1 - 1) (2 + 1) 4 [''prog'', ''-x'', ''@none'', ''@locked'']
   \<and> expandargv example_fs [''prog'', ''-x'', ''@none'', ''@locked'']
     = Inr (4, [''prog'', ''-x'', ''@none'', ''@locked''])"
proof -
  let ?argv = "[''prog'', ''-x'', ''@none'', ''@locked'']"
  have h1: "1 + 1 < (4::nat)" and h1': "2 + 1 < (4::nat)"
    by simp_all
  have h2: "peek (?argv ! (1 + 1)) = CHR ''@''" and h2': "peek (?argv ! (2 + 1)) = CHR ''@''"
    by simp_all
  have h3: "unresolved (example_fs (tl (?argv ! (1 + 1))))"
    and h3': "unresolved (example_fs (tl (?argv ! (2 + 1))))"
    by (simp_all add: example_fs_def unresolved_def)
  have h4: "(2000 :: 32 word) - 1 \<noteq> 0" and h4': "(2000 :: 32 word) - 1 - 1 \<noteq> 0"
    by simp_all
  have e: "expandargv example_fs ?argv = Inr (4, ?argv)"
    by (simp add: eval_defs char_defs)
  show ?thesis
    using unresolved_candidate_left [where fs = example_fs, OF h1 h2 h3 h4]
      unresolved_candidate_left [where fs = example_fs, OF h1' h2' h3' h4'] e
    by simp
qed

text \<open>
  Claim C7 as stated fails for the candidate that uses up the budget: of 2000 candidates
  naming missing files the last one is not skipped, the call aborts.
\<close>

theorem unresolved_candidate_counterexample:
  "expandargv no_files (''prog'' # replicate 2000 ''@none'') = Inl (too_many_files ''prog'')
   \<and> expandargv no_files (''prog'' # replicate 2000 ''@none'')
       \<noteq> Inr (2001, ''prog'' # replicate 2000 ''@none'')"
proof -
  have "expandargv no_files (''prog'' # replicate 2000 ''@none'') = Inl (too_many_files ''prog'')"
    by (rule many_unresolved) (simp_all add: no_files_def unresolved_def)
  then show ?thesis
    by simp
qed

subsection \<open>Candidates that name a directory\<close>




subsection \<open>Splicing\<close>

text \<open>
  Claim C6. A substitution at index \<open>i + 1\<close> replaces that one element by the arguments of
  the file, \<open>file_argv\<close>, keeps the elements before it and moves the elements after it; the
  count grows by the number of arguments less one and is again the length of the vector;
  the loop goes on with the cursor at \<open>i\<close>, so its next pass looks at index \<open>i + 1\<close>, which
  holds the first argument of the file, or the element that followed the reference when
  the file gave none.
\<close>

theorem substitution_splices:
  assumes "i + 1 < argc" and "argc = length argv" and "peek (argv ! (i + 1)) = CHR ''@''"
    and "fs (tl (argv ! (i + 1))) = Contents buffer" and "l - 1 \<noteq> 0"
    and "file_argv = file_arguments buffer"
    and "argv' = take (i + 1) argv @ file_argv @ drop (i + 2) argv"
  shows "expand_body fs l (i + 1) argc argv = Inr (l - 1, i, argc + length file_argv - 1, argv')
       \<and> length argv' = argc + length file_argv - 1
       \<and> expand_loop fs l i argc argv = expand_loop fs (l - 1) i (argc + length file_argv - 1) argv'
       \<and> (file_argv \<noteq> [] \<longrightarrow> argv' ! (i + 1) = hd file_argv)
       \<and> (file_argv = [] \<and> i + 2 < argc \<longrightarrow> argv' ! (i + 1) = argv ! (i + 2))"
proof -
  have sp: "insert_file_argv (i + 1) file_argv argv = argv'"
    using assms(7) by (simp add: insert_file_argv_def)
  have body: "expand_body fs l (i + 1) argc argv
                = Inr (l - 1, i, argc + length file_argv - 1, argv')"
    using expand_body_contents [where fs = fs and argc = argc, OF assms(3,5,4)] assms(6) sp
    by simp
  moreover have "length argv' = argc + length file_argv - 1"
    using assms(1,2,7) by simp
  moreover have "expand_loop fs l i argc argv
                  = expand_loop fs (l - 1) i (argc + length file_argv - 1) argv'"
    using assms(1) body by (rule expand_loop_next)
  moreover have "argv' ! (i + 1) = hd file_argv" if "file_argv \<noteq> []"
    using that assms(1,2,7) by (simp add: nth_append hd_conv_nth)
  moreover have "argv' ! (i + 1) = argv ! (i + 2)" if "file_argv = [] \<and> i + 2 < argc"
    using that assms(1,2,7) by (simp add: nth_append)
  ultimately show ?thesis
    by blast
qed

text \<open>
  The example of the specification, and a response file that names another response file.
\<close>

theorem substitution_splices_witness:
  "expand_body example_fs 2000 (1 + 1) 4 [''prog'', ''-x'', ''@resp'', ''-y'']
     = Inr (2000 - 1, 1, 4 + length [''-a'', ''-b''] - 1, [''prog'', ''-x'', ''-a'', ''-b'', ''-y''])
   \<and> expandargv example_fs [''prog'', ''-x'', ''@resp'', ''-y'']
     = Inr (5, [''prog'', ''-x'', ''-a'', ''-b'', ''-y''])
   \<and> expandargv example_fs [''prog'', ''@outer'', ''-y'']
     = Inr (5, [''prog'', ''-a'', ''-b'', ''x'', ''-y''])"
proof -
  let ?argv = "[''prog'', ''-x'', ''@resp'', ''-y'']"
  have h1: "1 + 1 < (4::nat)" and h2: "4 = length ?argv"
    and h3: "peek (?argv ! (1 + 1)) = CHR ''@''"
    and h4: "example_fs (tl (?argv ! (1 + 1))) = Contents ''-a -b''"
    and h5: "(2000 :: 32 word) - 1 \<noteq> 0"
    by (simp_all add: example_fs_def)
  have h6: "[''-a'', ''-b''] = file_arguments ''-a -b''"
    by (simp add: eval_defs char_defs)
  have h7: "[''prog'', ''-x'', ''-a'', ''-b'', ''-y'']
              = take (1 + 1) ?argv @ [''-a'', ''-b''] @ drop (1 + 2) ?argv"
    by simp
  have e1: "expandargv example_fs ?argv = Inr (5, [''prog'', ''-x'', ''-a'', ''-b'', ''-y''])"
    by (simp add: eval_defs char_defs)
  have e2: "expandargv example_fs [''prog'', ''@outer'', ''-y'']
              = Inr (5, [''prog'', ''-a'', ''-b'', ''x'', ''-y''])"
    by (simp add: eval_defs char_defs)
  show ?thesis
    using substitution_splices [where fs = example_fs, OF h1 h2 h3 h4 h5 h6 h7] e1 e2
    by simp
qed

subsection \<open>Blank response files\<close>

text \<open>
  Claim C5, as amended. When the scan reaches a reference to a readable file that is empty
  or holds only whitespace, and the reference does not use up the budget, the reference
  is replaced by no element: it leaves the vector, the count goes down by one and the scan
  goes on at the slot it left. \<^verbatim>\<open>buildargv\<close> on the same contents would give one empty
  argument.
\<close>

theorem blank_file_vanishes:
  assumes "i + 1 < argc" and "argc = length argv" and "peek (argv ! (i + 1)) = CHR ''@''"
    and "fs (tl (argv ! (i + 1))) = Contents buffer" and "\<forall>c \<in> set buffer. isspace c"
    and "l - 1 \<noteq> 0"
  shows "expand_body fs l (i + 1) argc argv
           = Inr (l - 1, i, argc - 1, take (i + 1) argv @ drop (i + 2) argv)
       \<and> length (take (i + 1) argv @ drop (i + 2) argv) = argc - 1
       \<and> expand_loop fs l i argc argv
           = expand_loop fs (l - 1) i (argc - 1) (take (i + 1) argv @ drop (i + 2) argv)
       \<and> buildargv (Some buffer) = Some [[]]"
proof -
  have blank: "list_all isspace buffer"
    using assms(5) by (simp add: list_all_iff)
  have body: "expand_body fs l (i + 1) argc argv
           = Inr (l - 1, i, argc - 1, take (i + 1) argv @ drop (i + 2) argv)"
    using expand_body_contents [where fs = fs and argc = argc, OF assms(3,6,4)]
    by (simp add: file_arguments_blank [OF blank] insert_file_argv_def)
  moreover have "length (take (i + 1) argv @ drop (i + 2) argv) = argc - 1"
    using assms(1,2) by simp
  moreover have "expand_loop fs l i argc argv
           = expand_loop fs (l - 1) i (argc - 1) (take (i + 1) argv @ drop (i + 2) argv)"
    using assms(1) body by (rule expand_loop_next)
  moreover have "buildargv (Some buffer) = Some [[]]"
    using blank by (rule buildargv_only_whitespace)
  ultimately show ?thesis
    by blast
qed

text \<open>The example of the specification.\<close>

theorem blank_file_vanishes_witness:
  "expand_body example_fs 2000 (1 + 1) 4 [''prog'', ''-x'', ''@blank'', ''-y'']
     = Inr (2000 - 1, 1, 4 - 1, [''prog'', ''-x'', ''-y''])
   \<and> expandargv example_fs [''prog'', ''-x'', ''@blank'', ''-y''] = Inr (3, [''prog'', ''-x'', ''-y''])
   \<and> buildargv (Some ('' '' @ [CHR 0x0A])) = Some [[]]"
proof -
  let ?argv = "[''prog'', ''-x'', ''@blank'', ''-y'']"
  have h1: "1 + 1 < (4::nat)" and h2: "4 = length ?argv"
    and h3: "peek (?argv ! (1 + 1)) = CHR ''@''"
    and h4: "example_fs (tl (?argv ! (1 + 1))) = Contents ('' '' @ [CHR 0x0A])"
    and h5: "\<forall>c \<in> set ('' '' @ [CHR 0x0A]). isspace c"
    and h6: "(2000 :: 32 word) - 1 \<noteq> 0"
    by (simp_all add: example_fs_def isspace_def)
  have e: "expandargv example_fs ?argv = Inr (3, [''prog'', ''-x'', ''-y''])"
    by (simp add: eval_defs char_defs)
  show ?thesis
    using blank_file_vanishes [where fs = example_fs, OF h1 h2 h3 h4 h5 h6] e
    by simp
qed

text \<open>
  Claim C5 as stated fails for the reference that uses up the budget: after 1999 candidates
  naming missing files the blank file is not substituted, the call aborts.
\<close>

theorem blank_file_counterexample:
  "expandargv blank_fs (''prog'' # replicate 1999 ''@none'' @ [''@blank''])
     = Inl (Exit 1 (''prog: error: too many @-files encountered'' @ [CHR 0x0A]))
   \<and> expandargv blank_fs (''prog'' # replicate 1999 ''@none'' @ [''@blank''])
       \<noteq> Inr (2000, ''prog'' # replicate 1999 ''@none'')
   \<and> blank_fs ''blank'' = Contents ''  ''"
proof -
  have "expandargv blank_fs (''prog'' # replicate 1999 ''@none'' @ [''@blank''])
          = Inl (too_many_files ''prog'')"
    by (rule budget_exhausted) (simp_all add: blank_fs_def unresolved_def)
  then show ?thesis
    by (simp add: too_many_files_def blank_fs_def)
qed

section \<open>Properties of the storage\<close>

subsection \<open>Allocation\<close>

lemma strdup_all_facts:
  assumes "strdup_all h ss = (ps, h')"
  shows "fresh h' = fresh h + length ss"
    and "ps = [fresh h ..< fresh h + length ss]"
    and "vectors h' = vectors h" and "touched h' = touched h"
    and "substitutions h' = substitutions h" and "moves h' = moves h"
    and "\<And>a. a < fresh h \<Longrightarrow> strings h' a = strings h a"
    and "map (str h') ps = ss"
proof -
  have "fresh h' = fresh h + length ss \<and> ps = [fresh h ..< fresh h + length ss]
      \<and> vectors h' = vectors h \<and> touched h' = touched h
      \<and> substitutions h' = substitutions h \<and> moves h' = moves h
      \<and> (\<forall>a. a < fresh h \<longrightarrow> strings h' a = strings h a)
      \<and> map (str h') ps = ss"
    using assms
  proof (induction ss arbitrary: h ps h')
    case Nil
    then show ?case by simp
  next
    case (Cons s ss)
    obtain ps1 h2 where r: "strdup_all (snd (strdup h s)) ss = (ps1, h2)"
      by (cases "strdup_all (snd (strdup h s)) ss") auto
    with Cons.prems have eq: "ps = fresh h # ps1" "h' = h2"
      by (auto simp: strdup_def)
    have f: "fresh (snd (strdup h s)) = fresh h + 1"
      and g: "vectors (snd (strdup h s)) = vectors h" "touched (snd (strdup h s)) = touched h"
        "substitutions (snd (strdup h s)) = substitutions h" "moves (snd (strdup h s)) = moves h"
      and st: "\<And>a. a \<noteq> fresh h \<Longrightarrow> strings (snd (strdup h s)) a = strings h a"
        "strings (snd (strdup h s)) (fresh h) = Some s"
      by (simp_all add: strdup_def)
    from Cons.IH [OF r]
    have ih: "fresh h2 = fresh h + 1 + length ss"
      "ps1 = [fresh h + 1 ..< fresh h + 1 + length ss]"
      "vectors h2 = vectors h" "touched h2 = touched h"
      "substitutions h2 = substitutions h" "moves h2 = moves h"
      "\<forall>a. a < fresh h + 1 \<longrightarrow> strings h2 a = strings (snd (strdup h s)) a"
      "map (str h2) ps1 = ss"
      unfolding f g by blast+
    have s0: "str h2 (fresh h) = s"
      using ih(7) st(2) by (simp add: str_def)
    have up: "[fresh h ..< fresh h + length (s # ss)] = fresh h # ps1"
      unfolding ih(2) by (subst upt_rec) simp
    have below: "\<forall>a. a < fresh h \<longrightarrow> strings h' a = strings h a"
      using ih(7) st(1) eq(2) by simp
    show ?case
      unfolding up using ih(1,3,4,5,6,8) eq s0 below by simp
  qed
  then show "fresh h' = fresh h + length ss"
    and "ps = [fresh h ..< fresh h + length ss]"
    and "vectors h' = vectors h" and "touched h' = touched h"
    and "substitutions h' = substitutions h" and "moves h' = moves h"
    and "\<And>a. a < fresh h \<Longrightarrow> strings h' a = strings h a"
    and "map (str h') ps = ss"
    by auto
qed

lemma new_vector_facts:
  assumes "new_vector h ss = (v, h')"
  shows "v = fresh h" and "fresh h' = fresh h + 1 + length ss"
    and "length (vec h' v) = length ss"
    and "\<And>p. p \<in> set (vec h' v) \<Longrightarrow> fresh h < p \<and> p < fresh h'"
    and "distinct (vec h' v)"
    and "contents h' v = ss"
    and "touched h' = touched h" and "substitutions h' = substitutions h" and "moves h' = moves h"
    and "\<And>a. a < fresh h \<Longrightarrow> strings h' a = strings h a"
    and "\<And>a. a \<noteq> fresh h \<Longrightarrow> vectors h' a = vectors h a"
proof -
  let ?h1 = "h\<lparr>vectors := (vectors h)(fresh h \<mapsto> []), fresh := fresh h + 1\<rparr>"
  obtain ps h2 where r: "strdup_all ?h1 ss = (ps, h2)"
    by (cases "strdup_all ?h1 ss") auto
  with assms have eq: "v = fresh h" "h' = h2\<lparr>vectors := (vectors h2)(fresh h \<mapsto> ps)\<rparr>"
    by (auto simp: new_vector_def malloc_vec_def)
  note f = strdup_all_facts [OF r]
  have ps: "ps = [fresh h + 1 ..< fresh h + 1 + length ss]"
    using f(2) by simp
  have v: "vec h' v = ps"
    using eq by (simp add: vec_def)
  show "v = fresh h" by (rule eq)
  show fr: "fresh h' = fresh h + 1 + length ss" using eq f(1) by simp
  show "length (vec h' v) = length ss"
    unfolding v ps by (simp del: upt_Suc)
  show "\<And>p. p \<in> set (vec h' v) \<Longrightarrow> fresh h < p \<and> p < fresh h'"
    unfolding v ps fr by (simp del: upt_Suc)
  show "distinct (vec h' v)"
    unfolding v ps by (simp del: upt_Suc)
  have "map (str h') ps = map (str h2) ps"
    using eq by (simp add: str_def)
  then show "contents h' v = ss"
    using v f(8) by (simp add: contents_def del: upt_Suc)
  show "touched h' = touched h" "substitutions h' = substitutions h" "moves h' = moves h"
    using eq f by simp_all
  show "\<And>a. a < fresh h \<Longrightarrow> strings h' a = strings h a"
    using eq f(7) by simp
  show "\<And>a. a \<noteq> fresh h \<Longrightarrow> vectors h' a = vectors h a"
    using eq f(3) by simp
qed

lemma file_vector:
  "(if only_whitespace buffer then malloc_vec h [] else buildargv_mem h buffer)
     = new_vector h (file_arguments buffer)"
  by (simp add: new_vector_def malloc_vec_def buildargv_mem_def file_arguments_def)

lemma set_insert_file_argv: "set (insert_file_argv i xs ys) \<subseteq> set xs \<union> set ys"
  by (auto simp: insert_file_argv_def dest: in_set_takeD in_set_dropD)

lemma substitution_frame:
  assumes inv: "frame_inv original_argv h0 argc argvp h"
    and orig: "original_argv \<noteq> NULL" "original_argv < fresh h0"
    and i: "i < argc"
    and fv: "new_vector h ss = (file_argv, h1)"
    and dup: "(if argvp = original_argv then dupargv h1 argvp else (argvp, h1)) = (argvp1, h2)"
    and re: "realloc_vec (free_str h2 (vec h2 argvp1 ! i)) argvp1 = (argvp2, h4)"
    and h6: "h6 = free_vec (store_vec h4 argvp2 (insert_file_argv i (vec h4 file_argv) (vec h4 argvp2))) file_argv"
  shows "frame_inv original_argv h0 (argc + length (vec h2 file_argv) - 1) argvp2
           (h6\<lparr>substitutions := substitutions h6 + 1\<rparr>)"
proof -
  note I = inv [unfolded frame_inv_def]
  note F = new_vector_facts [OF fv]
  have argvp_lt: "argvp < fresh h"
    using I orig by (cases "substitutions h = substitutions h0") auto
  have vec1: "vec h1 argvp = vec h argvp"
    using F(11) [of argvp] argvp_lt by (simp add: vec_def)
  have A: "fresh h0 \<le> argvp1 \<and> argvp1 < fresh h2 \<and> argvp1 \<noteq> file_argv
         \<and> length (vec h2 argvp1) = argc \<and> (\<forall>p\<in>set (vec h2 argvp1). fresh h0 \<le> p)
         \<and> length (vec h2 file_argv) = length ss \<and> (\<forall>p\<in>set (vec h2 file_argv). fresh h0 \<le> p)
         \<and> (\<forall>a<fresh h. strings h2 a = strings h a \<and> vectors h2 a = vectors h a)
         \<and> touched h2 = touched h \<and> substitutions h2 = substitutions h \<and> moves h2 = moves h
         \<and> fresh h < fresh h2"
  proof (cases "argvp = original_argv")
    case True
    with dup orig have d: "new_vector h1 (contents h1 original_argv) = (argvp1, h2)"
      by (simp add: dupargv_def)
    note D = new_vector_facts [OF d]
    have "length (vec h2 argvp1) = argc"
      using D(3) I True vec1 by (simp add: contents_def)
    moreover have "vec h2 file_argv = vec h1 file_argv"
      using D(11) [of file_argv] F(1,2) by (simp add: vec_def)
    moreover have "\<forall>p\<in>set (vec h2 argvp1). fresh h0 \<le> p"
      using D(4) F(2) I by fastforce
    moreover have "\<forall>p\<in>set (vec h1 file_argv). fresh h0 \<le> p"
      using F(4) I by fastforce
    moreover have "\<forall>a<fresh h. strings h2 a = strings h a \<and> vectors h2 a = vectors h a"
      using D(10,11) F(2,10,11) by simp
    ultimately show ?thesis
      using D(1,2,7,8,9) F(1,2,3,7,8,9) I by simp
  next
    case False
    with dup have e: "argvp1 = argvp" "h2 = h1"
      by simp_all
    from False I have "substitutions h0 < substitutions h"
      by (cases "substitutions h = substitutions h0") auto
    with I have "fresh h0 \<le> argvp" "\<forall>p\<in>set (vec h argvp). fresh h0 \<le> p"
      by auto
    moreover have "\<forall>p\<in>set (vec h1 file_argv). fresh h0 \<le> p"
      using F(4) I by fastforce
    ultimately show ?thesis
      using e F(1,2,3,7,8,9,10,11) I vec1 argvp_lt by simp
  qed
  define e where "e = vec h2 argvp1 ! i"
  have e: "fresh h0 \<le> e"
    using A i unfolding e_def by (metis nth_mem)
  have file_lt: "file_argv < fresh h2" "fresh h0 \<le> file_argv"
    using A F(1) I by auto
  have B: "fresh h0 \<le> argvp2 \<and> argvp2 \<noteq> file_argv
         \<and> vec h4 argvp2 = vec h2 argvp1 \<and> vec h4 file_argv = vec h2 file_argv
         \<and> fresh h2 \<le> fresh h4 \<and> moves h4 = moves h2
         \<and> substitutions h4 = substitutions h2
         \<and> strings h4 = (strings h2)(e := None)
         \<and> (\<forall>a. a \<noteq> argvp1 \<and> a \<noteq> argvp2 \<longrightarrow> vectors h4 a = vectors h2 a)
         \<and> touched h4 = insert argvp1 (insert e (touched h2))
         \<and> argvp2 < fresh h4"
    using re A file_lt unfolding e_def [symmetric]
    by (auto simp: realloc_vec_def free_str_def vec_def split: if_splits)
  let ?v = "insert_file_argv i (vec h4 file_argv) (vec h4 argvp2)"
  let ?h' = "h6\<lparr>substitutions := substitutions h6 + 1\<rparr>"
  have h': "vec ?h' argvp2 = ?v" "fresh ?h' = fresh h4" "moves ?h' = moves h4"
    "strings ?h' = strings h4"
    "\<And>a. a \<noteq> argvp2 \<Longrightarrow> a \<noteq> file_argv \<Longrightarrow> vectors ?h' a = vectors h4 a"
    "touched ?h' = insert file_argv (insert argvp2 (touched h4))"
    "substitutions ?h' = substitutions h4 + 1"
    using B by (simp_all add: h6 free_vec_def store_vec_def vec_def)
  have len: "length ?v = argc + length (vec h2 file_argv) - 1"
    using A B i by (simp add: length_insert_file_argv)
  have elems: "\<forall>p\<in>set ?v. fresh h0 \<le> p"
  proof
    fix p assume "p \<in> set ?v"
    then have "p \<in> set (vec h2 file_argv) \<or> p \<in> set (vec h2 argvp1)"
      using set_insert_file_argv [of i "vec h4 file_argv" "vec h4 argvp2"] B by auto
    then show "fresh h0 \<le> p"
      using A I by auto
  qed
  show ?thesis
    unfolding frame_inv_def
  proof (intro conjI)
    show "fresh h0 \<le> fresh ?h'" using h'(2) A B I by simp
    show "moves ?h' = moves h0" using h'(3) A B I by simp
    show "\<forall>a<fresh h0. strings ?h' a = strings h0 a \<and> vectors ?h' a = vectors h0 a"
      using h'(4,5) A B I e file_lt by auto
    show "\<forall>a\<in>touched ?h'. a \<in> touched h0 \<or> fresh h0 \<le> a"
      using h'(6) A B I e file_lt by auto
    show "substitutions h0 \<le> substitutions ?h'" using h'(7) A B I by simp
    show "argc + length (vec h2 file_argv) - 1 = length (vec ?h' argvp2)"
      using h'(1) len by simp
    show "substitutions ?h' = substitutions h0 \<longrightarrow> argvp2 = original_argv \<and> ?h' = h0"
      using h'(7) A B I by simp
    show "substitutions h0 < substitutions ?h' \<longrightarrow>
        fresh h0 \<le> argvp2 \<and> argvp2 < fresh ?h' \<and> (\<forall>p\<in>set (vec ?h' argvp2). fresh h0 \<le> p)"
      using h'(1,2) B elems by simp
  qed
qed

lemma expand_body_mem_frame:
  assumes inv: "frame_inv original_argv h0 argc argvp h"
    and orig: "original_argv \<noteq> NULL" "original_argv < fresh h0"
    and i: "i < argc"
    and body: "expand_body_mem fs original_argv l i argc argvp h = Inr (l', i', argc', argvp', h')"
  shows "frame_inv original_argv h0 argc' argvp' h'"
proof (cases "peek (str h (vec h argvp ! i)) = CHR ''@'' \<and> l - 1 \<noteq> 0
              \<and> (\<exists>buffer. fs (tl (str h (vec h argvp ! i))) = Contents buffer)")
  case False
  with body have "argc' = argc \<and> argvp' = argvp \<and> h' = h"
    by (auto simp: expand_body_mem_def Let_def split: if_splits file_node.splits)
  with inv show ?thesis
    by simp
next
  case True
  then obtain buffer where c: "peek (str h (vec h argvp ! i)) = CHR ''@''" "l - 1 \<noteq> 0"
    "fs (tl (str h (vec h argvp ! i))) = Contents buffer"
    by blast
  obtain file_argv h1 where fv: "new_vector h (file_arguments buffer) = (file_argv, h1)"
    by (cases "new_vector h (file_arguments buffer)") auto
  obtain argvp1 h2
    where dup: "(if argvp = original_argv then dupargv h1 argvp else (argvp, h1)) = (argvp1, h2)"
    by (cases "if argvp = original_argv then dupargv h1 argvp else (argvp, h1)") auto
  obtain argvp2 h4 where re: "realloc_vec (free_str h2 (vec h2 argvp1 ! i)) argvp1 = (argvp2, h4)"
    by (cases "realloc_vec (free_str h2 (vec h2 argvp1 ! i)) argvp1") auto
  define h6 where
    "h6 = free_vec (store_vec h4 argvp2 (insert_file_argv i (vec h4 file_argv) (vec h4 argvp2))) file_argv"
  have "expand_body_mem fs original_argv l i argc argvp h
         = Inr (l - 1, i - 1, argc + length (vec h2 file_argv) - 1, argvp2,
                h6\<lparr>substitutions := substitutions h6 + 1\<rparr>)"
    using c fv dup re
    by (simp add: expand_body_mem_def Let_def file_vector h6_def)
  with body have "argc' = argc + length (vec h2 file_argv) - 1" "argvp' = argvp2"
    "h' = h6\<lparr>substitutions := substitutions h6 + 1\<rparr>"
    by simp_all
  with substitution_frame [OF inv orig i fv dup re h6_def] show ?thesis
    by simp
qed

lemma expand_body_mem_abort:
  assumes "expand_body_mem fs original_argv l i argc argvp h = Inl (a, h')"
  shows "h' = h"
  using assms
  by (auto simp: expand_body_mem_def Let_def split: if_splits file_node.splits prod.splits)

text \<open>The invariant holds when the loop ends, by a return or by an abort.\<close>

lemma expand_loop_mem_frame:
  assumes "frame_inv original_argv h0 argc argvp h"
    and "original_argv \<noteq> NULL" and "original_argv < fresh h0"
  shows "case expand_loop_mem fs original_argv l i argc argvp h of
           Inl (a, h') \<Rightarrow> \<exists>argc' argvp'. frame_inv original_argv h0 argc' argvp' h'
         | Inr (argc', argvp', h') \<Rightarrow> frame_inv original_argv h0 argc' argvp' h'"
  using assms
proof (induction fs original_argv l i argc argvp h rule: expand_loop_mem.induct)
  case (1 fs original_argv l i argc argvp h)
  show ?case
  proof (cases "i + 1 < argc")
    case False
    with "1.prems" show ?thesis
      by (simp add: expand_loop_mem.simps)
  next
    case True
    show ?thesis
    proof (cases "expand_body_mem fs original_argv l (i + 1) argc argvp h")
      case (Inl e)
      obtain a h' where e: "e = (a, h')"
        by (cases e) auto
      with Inl have "h' = h"
        by (simp add: expand_body_mem_abort)
      moreover have "expand_loop_mem fs original_argv l i argc argvp h = Inl (a, h')"
        using True Inl e by (subst expand_loop_mem.simps) simp
      ultimately show ?thesis
        using "1.prems"(1) by auto
    next
      case (Inr st)
      obtain l1 i1 argc1 argvp1 h1 where st: "st = (l1, i1, argc1, argvp1, h1)"
        by (cases st) auto
      have body: "expand_body_mem fs original_argv l (i + 1) argc argvp h
                    = Inr (l1, i1, argc1, argvp1, h1)"
        using Inr st by simp
      have inv1: "frame_inv original_argv h0 argc1 argvp1 h1"
        using "1.prems"(1,2,3) True body by (rule expand_body_mem_frame)
      have "expand_loop_mem fs original_argv l i argc argvp h
              = expand_loop_mem fs original_argv l1 i1 argc1 argvp1 h1"
        using True body by (subst expand_loop_mem.simps) simp
      with "1.IH" [OF True body refl refl refl refl inv1 "1.prems"(2,3)] show ?thesis
        by simp
    qed
  qed
qed

lemma frame_inv_start: "frame_inv original_argv h (length (vec h original_argv)) original_argv h"
  by (simp add: frame_inv_def)

subsection \<open>The vector read as strings\<close>

lemma map_insert_file_argv: "map f (insert_file_argv i xs ys) = insert_file_argv i (map f xs) (map f ys)"
  by (simp add: insert_file_argv_def take_map drop_map)

lemma distinct_insert_file_argv:
  assumes "distinct xs" and "distinct ys" and "set xs \<inter> set ys = {}"
  shows "distinct (insert_file_argv i xs ys)"
proof -
  have "set (take i ys) \<inter> set (drop (i + 1) ys) = {}"
    using assms(2) by (metis append_take_drop_id distinct_append set_drop_subset_set_drop
        disjoint_iff subsetD le_add1)
  moreover have "set (take i ys) \<subseteq> set ys" "set (drop (i + 1) ys) \<subseteq> set ys"
    by (auto dest: in_set_takeD in_set_dropD)
  ultimately show ?thesis
    using assms by (auto simp: insert_file_argv_def)
qed

lemma insert_file_argv_cong_map:
  assumes "\<forall>p\<in>set xs. f p = g p" and "\<forall>k<length ys. k \<noteq> i \<longrightarrow> f (ys ! k) = g (ys ! k)"
  shows "map f (insert_file_argv i xs ys) = insert_file_argv i (map g xs) (map g ys)"
proof -
  have "map f (take i ys) = map g (take i ys)"
    using assms(2) by (auto simp: list_eq_iff_nth_eq)
  moreover have "map f (drop (i + 1) ys) = map g (drop (i + 1) ys)"
    using assms(2) by (auto simp: list_eq_iff_nth_eq)
  moreover have "map f xs = map g xs"
    using assms(1) by simp
  ultimately show ?thesis
    by (simp add: insert_file_argv_def take_map drop_map)
qed

lemma str_cong: "strings h' p = strings h p \<Longrightarrow> str h' p = str h p"
  by (simp add: str_def)

lemma vec_cong: "vectors h' p = vectors h p \<Longrightarrow> vec h' p = vec h p"
  by (simp add: vec_def)

lemma substitution_contents:
  assumes inv: "copy_inv original_argv h0 argc argvp h"
    and orig: "original_argv \<noteq> NULL" "original_argv < fresh h0"
    and i: "i < argc"
    and fv: "new_vector h ss = (file_argv, h1)"
    and dup: "(if argvp = original_argv then dupargv h1 argvp else (argvp, h1)) = (argvp1, h2)"
    and re: "realloc_vec (free_str h2 (vec h2 argvp1 ! i)) argvp1 = (argvp2, h4)"
    and h6: "h6 = free_vec (store_vec h4 argvp2 (insert_file_argv i (vec h4 file_argv) (vec h4 argvp2))) file_argv"
  shows "contents (h6\<lparr>substitutions := substitutions h6 + 1\<rparr>) argvp2
           = insert_file_argv i ss (contents h argvp)"
    and "\<forall>p\<in>set (vec (h6\<lparr>substitutions := substitutions h6 + 1\<rparr>) argvp2).
           p < fresh (h6\<lparr>substitutions := substitutions h6 + 1\<rparr>)"
    and "distinct (vec (h6\<lparr>substitutions := substitutions h6 + 1\<rparr>) argvp2)"
    and "length (vec h2 file_argv) = length ss"
proof -
  note C = inv [unfolded copy_inv_def]
  note I = C [THEN conjunct1, unfolded frame_inv_def]
  note F = new_vector_facts [OF fv]
  have argvp_lt: "argvp < fresh h"
    using I orig by (cases "substitutions h = substitutions h0") auto
  have vec1: "vec h1 argvp = vec h argvp"
    using F(11) [of argvp] argvp_lt by (simp add: vec_def)
  have str1: "\<forall>p\<in>set (vec h argvp). str h1 p = str h p"
    using F(10) C by (auto intro: str_cong)
  have c1: "contents h1 argvp = contents h argvp"
    using vec1 str1 by (simp add: contents_def)
  define V where "V = vec h2 argvp1"
  define F' where "F' = vec h2 file_argv"
  have A: "length V = argc \<and> distinct V \<and> distinct F' \<and> set F' \<inter> set V = {}
         \<and> map (str h2) V = contents h argvp \<and> map (str h2) F' = ss
         \<and> (\<forall>p\<in>set V \<union> set F'. p < fresh h2)
         \<and> argvp1 \<noteq> file_argv \<and> file_argv < fresh h2 \<and> argvp1 < fresh h2"
  proof (cases "argvp = original_argv")
    case True
    with dup orig have d: "new_vector h1 (contents h1 argvp) = (argvp1, h2)"
      by (simp add: dupargv_def)
    note D = new_vector_facts [OF d]
    have vf: "vec h2 file_argv = vec h1 file_argv"
      using D(11) [of file_argv] F(1,2) by (simp add: vec_def)
    have "map (str h2) (vec h1 file_argv) = map (str h1) (vec h1 file_argv)"
      using D(10) F(4) by (intro map_cong refl str_cong) fastforce
    then have mf: "map (str h2) F' = ss"
      using F(6) vf by (simp only: contents_def F'_def)
    have mv: "map (str h2) V = contents h argvp"
      using D(6) D(1) c1 by (simp add: contents_def V_def)
    have disj: "set F' \<inter> set V = {}"
      using D(1,4) F(4) vf unfolding V_def F'_def by fastforce
    have lt: "\<forall>p\<in>set V \<union> set F'. p < fresh h2"
      using D(1,2,4) F(4) vf unfolding V_def F'_def by fastforce
    have "length V = argc"
      using D(3) vec1 I unfolding V_def by (simp add: contents_def)
    then show ?thesis
      using D(1,2,5) F(1,2,5) vf mf mv disj lt unfolding V_def F'_def by simp
  next
    case False
    with dup have e: "argvp1 = argvp" "h2 = h1"
      by simp_all
    have "set F' \<inter> set V = {}"
      using F(1,4) C vec1 e unfolding V_def F'_def by fastforce
    moreover have "\<forall>p\<in>set V \<union> set F'. p < fresh h2"
      using F(1,2,4) C vec1 e unfolding V_def F'_def by fastforce
    moreover have "map (str h2) F' = ss"
      using F(1,6) e unfolding F'_def by (simp add: contents_def)
    moreover have "map (str h2) V = contents h argvp"
      using c1 e unfolding V_def by (simp add: contents_def)
    ultimately show ?thesis
      using e False F(1,2,5) C I vec1 argvp_lt unfolding V_def F'_def by simp
  qed
  define e where "e = V ! i"
  have B: "argvp2 \<noteq> file_argv \<and> vec h4 argvp2 = V \<and> vec h4 file_argv = F'
         \<and> fresh h2 \<le> fresh h4 \<and> strings h4 = (strings h2)(e := None)"
    using re A unfolding e_def V_def F'_def
    by (auto simp: realloc_vec_def free_str_def vec_def split: if_splits)
  let ?h' = "h6\<lparr>substitutions := substitutions h6 + 1\<rparr>"
  have h': "vec ?h' argvp2 = insert_file_argv i F' V" "fresh ?h' = fresh h4" "strings ?h' = strings h4"
    using B by (simp_all add: h6 free_vec_def store_vec_def vec_def)
  have e_in: "e \<in> set V"
    using A i unfolding e_def by simp
  have sF: "\<forall>p\<in>set F'. str ?h' p = str h2 p"
    using A B e_in h'(3) by (auto simp: str_def)
  have sV: "\<forall>k<length V. k \<noteq> i \<longrightarrow> str ?h' (V ! k) = str h2 (V ! k)"
  proof (intro allI impI)
    fix k assume "k < length V" "k \<noteq> i"
    then have "V ! k \<noteq> e"
      using A i unfolding e_def by (simp add: nth_eq_iff_index_eq)
    then show "str ?h' (V ! k) = str h2 (V ! k)"
      using B h'(3) by (simp add: str_def)
  qed
  show "contents ?h' argvp2 = insert_file_argv i ss (contents h argvp)"
    unfolding contents_def h'(1) using insert_file_argv_cong_map [OF sF sV] A
    by (simp add: contents_def)
  show "\<forall>p\<in>set (vec ?h' argvp2). p < fresh ?h'"
    unfolding h'(1,2)
  proof
    fix p assume "p \<in> set (insert_file_argv i F' V)"
    then have "p \<in> set F' \<union> set V"
      using set_insert_file_argv [of i F' V] by blast
    then have "p < fresh h2"
      using A by blast
    then show "p < fresh h4"
      using B by simp
  qed
  show "distinct (vec ?h' argvp2)"
    unfolding h'(1) using A by (intro distinct_insert_file_argv) auto
  show "length (vec h2 file_argv) = length ss"
    using A unfolding F'_def by (metis length_map)
qed

text \<open>
  The loop on the memory computes what the loop on lists computes: the same abort, or the
  same count and a vector that holds the same strings.
\<close>

lemma expand_body_mem_refines:
  assumes inv: "copy_inv original_argv h0 argc argvp h"
    and orig: "original_argv \<noteq> NULL" "original_argv < fresh h0"
    and i: "i < argc"
  shows "case expand_body_mem fs original_argv l i argc argvp h of
           Inl (a, h') \<Rightarrow> expand_body fs l i argc (contents h argvp) = Inl a
         | Inr (l', i', argc', argvp', h') \<Rightarrow>
             expand_body fs l i argc (contents h argvp) = Inr (l', i', argc', contents h' argvp')
             \<and> copy_inv original_argv h0 argc' argvp' h'"
proof -
  note C = inv [unfolded copy_inv_def]
  note I = C [THEN conjunct1]
  have len: "length (vec h argvp) = argc"
    using I by (simp add: frame_inv_def)
  have nth_i: "contents h argvp ! i = str h (vec h argvp ! i)"
    using i len by (simp add: contents_def)
  have nth_0: "contents h argvp ! 0 = str h (vec h argvp ! 0)"
    using i len by (simp add: contents_def)
  show ?thesis
  proof (cases "peek (str h (vec h argvp ! i)) = CHR ''@'' \<and> l - 1 \<noteq> 0
              \<and> (\<exists>buffer. fs (tl (str h (vec h argvp ! i))) = Contents buffer)")
    case False
    then show ?thesis
      using inv nth_i nth_0
      by (auto simp: expand_body_mem_def expand_body_def Let_def split: file_node.splits)
  next
    case True
    then obtain buffer where c: "peek (str h (vec h argvp ! i)) = CHR ''@''" "l - 1 \<noteq> 0"
      "fs (tl (str h (vec h argvp ! i))) = Contents buffer"
      by blast
    let ?ss = "file_arguments buffer"
    obtain file_argv h1 where fv: "new_vector h ?ss = (file_argv, h1)"
      by (cases "new_vector h ?ss") auto
    obtain argvp1 h2
      where dup: "(if argvp = original_argv then dupargv h1 argvp else (argvp, h1)) = (argvp1, h2)"
      by (cases "if argvp = original_argv then dupargv h1 argvp else (argvp, h1)") auto
    obtain argvp2 h4 where re: "realloc_vec (free_str h2 (vec h2 argvp1 ! i)) argvp1 = (argvp2, h4)"
      by (cases "realloc_vec (free_str h2 (vec h2 argvp1 ! i)) argvp1") auto
    define h6 where
      "h6 = free_vec (store_vec h4 argvp2 (insert_file_argv i (vec h4 file_argv) (vec h4 argvp2))) file_argv"
    let ?h' = "h6\<lparr>substitutions := substitutions h6 + 1\<rparr>"
    have mem: "expand_body_mem fs original_argv l i argc argvp h
           = Inr (l - 1, i - 1, argc + length (vec h2 file_argv) - 1, argvp2, ?h')"
      using c fv dup re
      by (simp add: expand_body_mem_def Let_def file_vector h6_def)
    note S = substitution_contents [OF inv orig i fv dup re h6_def]
    have val: "expand_body fs l i argc (contents h argvp)
           = Inr (l - 1, i - 1, argc + length ?ss - 1, insert_file_argv i ?ss (contents h argvp))"
      using c nth_i by (simp add: expand_body_def Let_def)
    have "frame_inv original_argv h0 (argc + length (vec h2 file_argv) - 1) argvp2 ?h'"
      using I orig i fv dup re h6_def by (rule substitution_frame)
    then have "copy_inv original_argv h0 (argc + length (vec h2 file_argv) - 1) argvp2 ?h'"
      using S(2,3) by (simp add: copy_inv_def)
    then show ?thesis
      using mem val S(1,4) by simp
  qed
qed

lemma expand_loop_mem_refines:
  assumes "copy_inv original_argv h0 argc argvp h"
    and "original_argv \<noteq> NULL" and "original_argv < fresh h0"
  shows "case expand_loop_mem fs original_argv l i argc argvp h of
           Inl (a, h') \<Rightarrow> expand_loop fs l i argc (contents h argvp) = Inl a
         | Inr (argc', argvp', h') \<Rightarrow>
             expand_loop fs l i argc (contents h argvp) = Inr (argc', contents h' argvp')"
  using assms
proof (induction fs original_argv l i argc argvp h rule: expand_loop_mem.induct)
  case (1 fs original_argv l i argc argvp h)
  show ?case
  proof (cases "i + 1 < argc")
    case False
    then show ?thesis
      by (simp add: expand_loop_mem.simps expand_loop.simps)
  next
    case True
    note R = expand_body_mem_refines [OF "1.prems" True, of fs l]
    show ?thesis
    proof (cases "expand_body_mem fs original_argv l (i + 1) argc argvp h")
      case (Inl e)
      obtain a h' where e: "e = (a, h')"
        by (cases e) auto
      with R Inl have "expand_body fs l (i + 1) argc (contents h argvp) = Inl a"
        by simp
      with True have "expand_loop fs l i argc (contents h argvp) = Inl a"
        by (rule expand_loop_abort)
      moreover have "expand_loop_mem fs original_argv l i argc argvp h = Inl (a, h')"
        using True Inl e by (subst expand_loop_mem.simps) simp
      ultimately show ?thesis
        by simp
    next
      case (Inr st)
      obtain l1 i1 argc1 argvp1 h1 where st: "st = (l1, i1, argc1, argvp1, h1)"
        by (cases st) auto
      have body: "expand_body_mem fs original_argv l (i + 1) argc argvp h
                    = Inr (l1, i1, argc1, argvp1, h1)"
        using Inr st by simp
      with R have val: "expand_body fs l (i + 1) argc (contents h argvp)
                          = Inr (l1, i1, argc1, contents h1 argvp1)"
        and inv1: "copy_inv original_argv h0 argc1 argvp1 h1"
        by simp_all
      have m: "expand_loop_mem fs original_argv l i argc argvp h
                 = expand_loop_mem fs original_argv l1 i1 argc1 argvp1 h1"
        using True body by (subst expand_loop_mem.simps) simp
      have v: "expand_loop fs l i argc (contents h argvp)
                 = expand_loop fs l1 i1 argc1 (contents h1 argvp1)"
        using True val by (rule expand_loop_next)
      from "1.IH" [OF True body refl refl refl refl inv1 "1.prems"(2,3)] show ?thesis
        by (simp only: m v)
    qed
  qed
qed

lemma copy_inv_start:
  assumes "\<forall>p\<in>set (vec h original_argv). p < fresh h"
  shows "copy_inv original_argv h (length (vec h original_argv)) original_argv h"
  using assms by (simp add: copy_inv_def frame_inv_start)

lemma expandargv_mem_refines:
  assumes "original_argv \<noteq> NULL" and "original_argv < fresh h"
    and "\<forall>p\<in>set (vec h original_argv). p < fresh h"
    and "argc = length (vec h original_argv)"
  shows "case expandargv_mem fs argc original_argv h of
           Inl (a, h') \<Rightarrow> expandargv fs (contents h original_argv) = Inl a
         | Inr (argc', argvp', h') \<Rightarrow>
             expandargv fs (contents h original_argv) = Inr (argc', contents h' argvp')"
proof -
  have "length (contents h original_argv) = argc"
    using assms(4) by (simp add: contents_def)
  then have e: "expandargv fs (contents h original_argv)
               = expand_loop fs 2000 0 (length (vec h original_argv)) (contents h original_argv)"
    using assms(4) by (simp add: expandargv_def)
  show ?thesis
    unfolding expandargv_mem_def assms(4) e
    by (rule expand_loop_mem_refines [OF copy_inv_start [OF assms(3)] assms(1,2)])
qed

subsection \<open>Copy on first write\<close>

lemmas mem_defs = expandargv_mem_def expand_loop_mem.simps expand_body_mem_def
  buildargv_mem_def dupargv_def new_vector_def malloc_vec_def strdup_def free_str_def free_vec_def
  realloc_vec_def store_vec_def str_def vec_def contents_def NULL_def example_memory_def

text \<open>
  Claim C4. Take a call on a vector that is not \<^verbatim>\<open>NULL\<close>, lies with its strings below the
  addresses \<^verbatim>\<open>malloc\<close> hands out, and has \<open>argc\<close> elements. Whether the call returns or
  aborts, in the memory it leaves every block that existed at the call holds what it held
  and is still allocated, the caller's vector reads as before, and every block that was
  stored into, resized or freed is one the call allocated itself. When the call returns
  and made no substitution, the pointer is the caller's, and the count and the whole memory
  are unchanged. When it returns and made a substitution, the pointer is not the caller's,
  the vector and all its elements lie in blocks the call allocated, and they hold the
  expansion of the strings of the caller's vector.
\<close>

theorem copy_on_first_write:
  assumes "original_argv \<noteq> NULL" and "original_argv < fresh h"
    and "\<forall>p\<in>set (vec h original_argv). p < fresh h"
    and "argc = length (vec h original_argv)"
    and "expandargv_mem fs argc original_argv h = Inl (a, h')
         \<or> expandargv_mem fs argc original_argv h = Inr (argc', argvp', h')"
  shows "(\<forall>b<fresh h. strings h' b = strings h b \<and> vectors h' b = vectors h b)
       \<and> contents h' original_argv = contents h original_argv
       \<and> (\<forall>b\<in>touched h'. b \<in> touched h \<or> fresh h \<le> b)
       \<and> (expandargv_mem fs argc original_argv h = Inr (argc', argvp', h') \<longrightarrow>
            (substitutions h' = substitutions h \<longrightarrow>
               argvp' = original_argv \<and> argc' = argc \<and> h' = h)
          \<and> (substitutions h' \<noteq> substitutions h \<longrightarrow>
               argvp' \<noteq> original_argv \<and> fresh h \<le> argvp'
               \<and> (\<forall>p\<in>set (vec h' argvp'). fresh h \<le> p))
          \<and> argc' = length (vec h' argvp')
          \<and> expandargv fs (contents h original_argv) = Inr (argc', contents h' argvp'))"
proof -
  have start: "frame_inv original_argv h argc original_argv h"
    unfolding assms(4) by (rule frame_inv_start)
  note L = expand_loop_mem_frame [OF start assms(1,2), of fs 2000 0]
  have frame: "(\<forall>b<fresh h. strings h' b = strings h b \<and> vectors h' b = vectors h b)
       \<and> (\<forall>b\<in>touched h'. b \<in> touched h \<or> fresh h \<le> b)"
    using assms(5) L by (auto simp: expandargv_mem_def frame_inv_def)
  have "vec h' original_argv = vec h original_argv"
    using frame assms(2) by (simp add: vec_def)
  moreover have "\<forall>p\<in>set (vec h original_argv). str h' p = str h p"
    using frame assms(3) by (simp add: str_def)
  ultimately have orig: "contents h' original_argv = contents h original_argv"
    by (simp add: contents_def)
  have ret: "(substitutions h' = substitutions h \<longrightarrow>
               argvp' = original_argv \<and> argc' = argc \<and> h' = h)
          \<and> (substitutions h' \<noteq> substitutions h \<longrightarrow>
               argvp' \<noteq> original_argv \<and> fresh h \<le> argvp'
               \<and> (\<forall>p\<in>set (vec h' argvp'). fresh h \<le> p))
          \<and> argc' = length (vec h' argvp')
          \<and> expandargv fs (contents h original_argv) = Inr (argc', contents h' argvp')"
    if r: "expandargv_mem fs argc original_argv h = Inr (argc', argvp', h')"
  proof -
    from L r have I: "frame_inv original_argv h argc' argvp' h'"
      by (simp add: expandargv_mem_def)
    note J = I [unfolded frame_inv_def]
    have same: "argc' = argc" if "substitutions h' = substitutions h"
      using that J assms(4) by simp
    have more: "substitutions h < substitutions h'" if "substitutions h' \<noteq> substitutions h"
      using that J by simp
    have "expandargv fs (contents h original_argv) = Inr (argc', contents h' argvp')"
      using expandargv_mem_refines [OF assms(1,2,3,4), of fs] r by simp
    then show ?thesis
      using J assms(2) same more by auto
  qed
  show ?thesis
    using frame orig ret by blast
qed

text \<open>
  The example of the specification in the example memory: the result is a new vector at
  address 14, the caller's vector at address 1 is as it was, and the blocks touched are
  the vector of the file (6), the first copy (9), the copy of the reference (12) and the
  result (14). Where the reference names no file the call returns the caller's pointer and
  the memory as it was; where it names a directory the process exits with the memory as
  it was.
\<close>

theorem copy_on_first_write_witness:
  "(\<exists>h'. expandargv_mem example_fs 4 1 example_memory = Inr (5, 14, h')
     \<and> contents h' 14 = [''prog'', ''-x'', ''-a'', ''-b'', ''-y'']
     \<and> contents h' 1 = [''prog'', ''-x'', ''@resp'', ''-y'']
     \<and> vectors h' 1 = Some [2, 3, 4, 5]
     \<and> vec h' 14 = [10, 11, 7, 8, 13]
     \<and> touched h' = {6, 14, 9, 12}
     \<and> substitutions h' = 1
     \<and> expandargv example_fs [''prog'', ''-x'', ''@resp'', ''-y'']
         = Inr (5, [''prog'', ''-x'', ''-a'', ''-b'', ''-y'']))
   \<and> expandargv_mem no_files 4 1 example_memory = Inr (4, 1, example_memory)
   \<and> expandargv_mem all_directories 4 1 example_memory
       = Inl (refers_to_directory ''prog'', example_memory)"
proof -
  obtain h' where r: "expandargv_mem example_fs 4 1 example_memory = Inr (5, 14, h')"
    and f: "vec h' 14 = [10, 11, 7, 8, 13]" "touched h' = {6, 14, 9, 12}" "substitutions h' = 1"
      "contents h' 14 = [''prog'', ''-x'', ''-a'', ''-b'', ''-y'']"
    by (simp add: mem_defs eval_defs char_defs Let_def)
  have h1: "(1::nat) \<noteq> NULL" and h2: "1 < fresh example_memory"
    and h3: "\<forall>p\<in>set (vec example_memory 1). p < fresh example_memory"
    and h4: "4 = length (vec example_memory 1)"
    and c: "contents example_memory 1 = [''prog'', ''-x'', ''@resp'', ''-y'']"
    and v: "vectors example_memory 1 = Some [2, 3, 4, 5]"
    by (simp_all add: NULL_def example_memory_def vec_def contents_def str_def)
  have n: "expandargv_mem no_files 4 1 example_memory = Inr (4, 1, example_memory)"
    by (simp add: mem_defs no_files_def)
  have d: "expandargv_mem all_directories 4 1 example_memory
             = Inl (refers_to_directory ''prog'', example_memory)"
    by (simp add: mem_defs all_directories_def refers_to_directory_def)
  from copy_on_first_write [OF h1 h2 h3 h4 disjI2 [OF r]] have "\<exists>h'.
       expandargv_mem example_fs 4 1 example_memory = Inr (5, 14, h')
     \<and> contents h' 14 = [''prog'', ''-x'', ''-a'', ''-b'', ''-y'']
     \<and> contents h' 1 = [''prog'', ''-x'', ''@resp'', ''-y'']
     \<and> vectors h' 1 = Some [2, 3, 4, 5]
     \<and> vec h' 14 = [10, 11, 7, 8, 13]
     \<and> touched h' = {6, 14, 9, 12}
     \<and> substitutions h' = 1
     \<and> expandargv example_fs [''prog'', ''-x'', ''@resp'', ''-y'']
         = Inr (5, [''prog'', ''-x'', ''-a'', ''-b'', ''-y''])"
    using r f c v h2 by (intro exI [of _ h']) (simp add: example_memory_def)
  with n d show ?thesis
    by blast
qed

end
